theory Spec2Isabelle
  imports Complex_Main "HOL-Library.Sublist"
begin

section \<open>Sliding-window cropping of raster files (gdal\_sliding\_crop.py)\<close>

text \<open>
  The script has one function, \<open>crop_tif_images_with_gdal\<close>. It talks to the file
  system (\<open>os.path.exists\<close>, \<open>os.makedirs\<close>, \<open>os.walk\<close>), to the raster library
  (\<open>gdal.Open\<close>, \<open>gdal.Translate\<close>), to the console (\<open>print\<close>) and to a progress
  bar (\<open>tqdm\<close>). The model fixes the answers of the outside world in a record of
  oracles, and the function returns the sequence of external calls it makes together
  with the exception that leaves it, if any. Python integers are \<open>int\<close>; strings are
  lists of characters (ASCII; \<open>os.sep\<close> is the POSIX separator); an exception is
  represented by its message, and is an instance of \<open>Exception\<close>.
\<close>

subsection \<open>Python strings and integers\<close>

definition sep :: char where
  "sep = CHR ''/''"

definition extsep :: char where
  "extsep = CHR ''.''"

text \<open>\<open>str.lower\<close> on ASCII letters.\<close>

definition lower_char :: "char \<Rightarrow> char" where
  "lower_char c =
     (if 65 \<le> (of_char c :: nat) \<and> (of_char c :: nat) \<le> 90
      then char_of ((of_char c :: nat) + 32) else c)"

definition py_lower :: "string \<Rightarrow> string" where
  "py_lower s = map lower_char s"

definition py_startswith :: "string \<Rightarrow> string \<Rightarrow> bool" where
  "py_startswith s pre = (take (length pre) s = pre)"

definition py_endswith :: "string \<Rightarrow> string \<Rightarrow> bool" where
  "py_endswith s suf = (length suf \<le> length s \<and> drop (length s - length suf) s = suf)"

text \<open>\<open>s.replace(os.sep, '_')\<close>: the separator is one character.\<close>

fun replace_sep :: "string \<Rightarrow> string" where
  "replace_sep [] = []"
| "replace_sep (c # cs) = (if c = sep then CHR ''_'' # replace_sep cs else c # replace_sep cs)"

text \<open>\<open>s.split(os.sep)\<close>: never the empty list; the empty string gives one empty field.\<close>

fun split_sep :: "string \<Rightarrow> string list" where
  "split_sep [] = [[]]"
| "split_sep (c # cs) =
     (if c = sep then [] # split_sep cs
      else (case split_sep cs of [] \<Rightarrow> [[c]] | x # xs \<Rightarrow> (c # x) # xs))"

text \<open>\<open>os.sep.join(comps)\<close>.\<close>

fun sep_join :: "string list \<Rightarrow> string" where
  "sep_join [] = []"
| "sep_join [x] = x"
| "sep_join (x # y # ys) = x @ sep # sep_join (y # ys)"

text \<open>\<open>s.rfind(c)\<close> for a one-character \<open>c\<close>: the last index of \<open>c\<close>, or \<open>-1\<close>.\<close>

fun rfind :: "string \<Rightarrow> char \<Rightarrow> int" where
  "rfind [] c = - 1"
| "rfind (x # xs) c =
     (let r = rfind xs c in if 0 \<le> r then r + 1 else if x = c then 0 else - 1)"

text \<open>\<open>str(n)\<close> of an integer, as the f-string formats \<open>{left}\<close>: decimal digits, a
  leading minus sign for a negative number.\<close>

definition digit_char :: "nat \<Rightarrow> char" where
  "digit_char d = char_of (48 + d)"

fun str_nat :: "nat \<Rightarrow> string" where
  "str_nat n = (if n < 10 then [digit_char n] else str_nat (n div 10) @ [digit_char (n mod 10)])"

declare str_nat.simps [simp del]

definition py_str :: "int \<Rightarrow> string" where
  "py_str i = (if i < 0 then CHR ''-'' # str_nat (nat (- i)) else str_nat (nat i))"

text \<open>\<open>range(start, stop, step)\<close> as a list: \<open>ValueError\<close> for a zero step, otherwise
  the items \<open>start + k * step\<close> for \<open>k\<close> below the length that CPython computes.\<close>

definition range_len :: "int \<Rightarrow> int \<Rightarrow> int \<Rightarrow> nat" where
  "range_len start stop step =
     (if 0 < step then (if start < stop then nat ((stop - start - 1) div step + 1) else 0)
      else (if stop < start then nat ((start - stop - 1) div (- step) + 1) else 0))"

definition py_range :: "int \<Rightarrow> int \<Rightarrow> int \<Rightarrow> string + int list" where
  "py_range start stop step =
     (if step = 0 then Inl ''range() arg 3 must not be zero''
      else Inr (map (\<lambda>k. start + int k * step) [0..<range_len start stop step]))"

subsection \<open>\<open>os.path\<close> on POSIX\<close>

text \<open>\<open>os.path.join(a, b)\<close>.\<close>

definition os_path_join :: "string \<Rightarrow> string \<Rightarrow> string" where
  "os_path_join a b =
     (if py_startswith b [sep] then b
      else if a = [] \<or> py_endswith a [sep] then a @ b
      else a @ sep # b)"

text \<open>\<open>os.path.splitext(p)\<close>: the extension starts at the last dot of the last
  component, unless only dots precede it there.\<close>

definition os_path_splitext :: "string \<Rightarrow> string \<times> string" where
  "os_path_splitext p =
     (let sepIndex = rfind p sep; dotIndex = rfind p extsep in
      if sepIndex < dotIndex \<and>
         list_ex (\<lambda>c. c \<noteq> extsep) (take (nat (dotIndex - (sepIndex + 1))) (drop (nat (sepIndex + 1)) p))
      then (take (nat dotIndex) p, drop (nat dotIndex) p)
      else (p, []))"

text \<open>\<open>os.path.normpath(path)\<close>.\<close>

definition initial_slashes :: "string \<Rightarrow> nat" where
  "initial_slashes path =
     (if \<not> py_startswith path [sep] then 0
      else if py_startswith path [sep, sep] \<and> \<not> py_startswith path [sep, sep, sep] then 2
      else 1)"

fun norm_comps :: "nat \<Rightarrow> string list \<Rightarrow> string list \<Rightarrow> string list" where
  "norm_comps ini [] new_comps = new_comps"
| "norm_comps ini (cmp # comps) new_comps =
     (if cmp = [] \<or> cmp = ''.'' then norm_comps ini comps new_comps
      else if cmp \<noteq> ''..'' \<or> (ini = 0 \<and> new_comps = []) \<or>
              (new_comps \<noteq> [] \<and> last new_comps = ''..'')
      then norm_comps ini comps (new_comps @ [cmp])
      else if new_comps \<noteq> [] then norm_comps ini comps (butlast new_comps)
      else norm_comps ini comps new_comps)"

definition os_path_normpath :: "string \<Rightarrow> string" where
  "os_path_normpath path =
     (if path = [] then ''.''
      else let ini = initial_slashes path;
               comps = norm_comps ini (split_sep path) [];
               p = replicate ini sep @ sep_join comps
           in if p = [] then ''.'' else p)"

text \<open>\<open>os.path.abspath(path)\<close>; the current directory is a parameter.\<close>

definition os_path_abspath :: "string \<Rightarrow> string \<Rightarrow> string" where
  "os_path_abspath cwd path =
     os_path_normpath (if py_startswith path [sep] then path else os_path_join cwd path)"

text \<open>\<open>os.path.relpath(path, start)\<close>: \<open>ValueError\<close> on the empty path.\<close>

definition os_path_relpath :: "string \<Rightarrow> string \<Rightarrow> string \<Rightarrow> string + string" where
  "os_path_relpath cwd path start =
     (if path = [] then Inl ''no path specified''
      else let start_list = filter (\<lambda>x. x \<noteq> []) (split_sep (os_path_abspath cwd start));
               path_list = filter (\<lambda>x. x \<noteq> []) (split_sep (os_path_abspath cwd path));
               i = length (longest_common_prefix start_list path_list);
               rel_list = replicate (length start_list - i) ''..'' @ drop i path_list
           in Inr (if rel_list = [] then ''.'' else sep_join rel_list))"

subsection \<open>The outside world\<close>

record dataset =
  description :: string
  RasterXSize :: int
  RasterYSize :: int

text \<open>\<open>gdal.Open\<close> raises, returns \<open>None\<close>, or returns a dataset.\<close>

datatype open_result = OpenRaises string | OpenNone | OpenDataset dataset

type_synonym srcwin = "int \<times> int \<times> int \<times> int"

text \<open>
  The oracles. \<open>os_makedirs\<close> and \<open>gdal_Translate\<close> answer \<open>None\<close> when the call
  returns and \<open>Some msg\<close> when it raises an exception with that message (the
  function ignores what \<open>gdal.Translate\<close> returns, so a returned failure and a
  returned dataset are the same to it); \<open>os_walk\<close> lists the triples
  \<open>(subdir, dirs, files)\<close> that the traversal yields. An oracle gives the same answer
  to the same question throughout a run. Interrupts, which are no instances of
  \<open>Exception\<close>, are outside the model.
\<close>

record env =
  os_path_exists :: "string \<Rightarrow> bool"
  os_makedirs :: "string \<Rightarrow> string option"
  os_walk :: "string \<Rightarrow> (string \<times> string list \<times> string list) list"
  os_getcwd :: string
  gdal_Open :: "string \<Rightarrow> open_result"
  gdal_Translate :: "string \<Rightarrow> dataset \<Rightarrow> srcwin \<Rightarrow> string option"

text \<open>The external calls with an effect, in the order the function makes them.
  \<open>Translate path dataset srcwin\<close> is the crop request (its format is always GTiff).\<close>

datatype event =
    Makedirs string
  | Walk string
  | BarNew nat
  | Open string
  | Translate string dataset srcwin
  | Print string
  | BarUpdate nat
  | BarClose

subsection \<open>\<open>crop_tif_images_with_gdal\<close>\<close>

definition supported_format :: string where
  "supported_format = ''tif''"

text \<open>Lines 25 to 29: the two loops that collect the paths.\<close>

fun collect_files :: "string \<Rightarrow> string list \<Rightarrow> string list \<Rightarrow> string list" where
  "collect_files subdir [] tif_paths = tif_paths"
| "collect_files subdir (file # files) tif_paths =
     collect_files subdir files
       (if py_endswith (py_lower file) (CHR ''.'' # supported_format)
        then tif_paths @ [os_path_join subdir file] else tif_paths)"

fun collect_walk :: "(string \<times> string list \<times> string list) list \<Rightarrow> string list \<Rightarrow> string list" where
  "collect_walk [] tif_paths = tif_paths"
| "collect_walk ((subdir, dirs, files) # rest) tif_paths =
     collect_walk rest (collect_files subdir files tif_paths)"

definition discover :: "env \<Rightarrow> string \<Rightarrow> string list" where
  "discover e input_directory = collect_walk (os_walk e input_directory) []"

text \<open>Line 49: the name of the cropped image.\<close>

definition cropped_img_name :: "string \<Rightarrow> int \<Rightarrow> int \<Rightarrow> int \<Rightarrow> int \<Rightarrow> string" where
  "cropped_img_name relative_path left top' right bottom =
     (let (base_name, ext) = os_path_splitext relative_path
      in replace_sep base_name @ ''_'' @ py_str left @ ''_'' @ py_str top' @ ''_'' @
         py_str right @ ''_'' @ py_str bottom @ ext)"

text \<open>Lines 41 to 54: the inner loop, over the values of \<open>left\<close>. The result is the
  calls made and the exception that ended the loop, if one did.\<close>

fun crop_row :: "env \<Rightarrow> string \<Rightarrow> string \<Rightarrow> int \<times> int \<Rightarrow> string \<Rightarrow> dataset \<Rightarrow> int \<Rightarrow>
    int list \<Rightarrow> event list \<times> string option" where
  "crop_row e input_directory output_directory window_size tif_path ds top' [] = ([], None)"
| "crop_row e input_directory output_directory window_size tif_path ds top' (left # lefts) =
     (let bottom = top' + snd window_size;
          right = left + fst window_size
      in case os_path_relpath (os_getcwd e) tif_path input_directory of
           Inl msg \<Rightarrow> ([], Some msg)
         | Inr relative_path \<Rightarrow>
             (let cropped_img_path =
                    os_path_join output_directory
                      (cropped_img_name relative_path left top' right bottom);
                  srcwin = (left, top', fst window_size, snd window_size)
              in case gdal_Translate e cropped_img_path ds srcwin of
                   Some msg \<Rightarrow> ([Translate cropped_img_path ds srcwin], Some msg)
                 | None \<Rightarrow>
                     (let (evs, exc) =
                            crop_row e input_directory output_directory window_size tif_path ds
                              top' lefts
                      in (Translate cropped_img_path ds srcwin # evs, exc))))"

text \<open>Lines 40 to 54: the outer loop, over the values of \<open>top\<close>; the inner range is
  built anew for each of them.\<close>

fun crop_rows :: "env \<Rightarrow> string \<Rightarrow> string \<Rightarrow> int \<times> int \<Rightarrow> int \<Rightarrow> string \<Rightarrow> dataset \<Rightarrow>
    int list \<Rightarrow> event list \<times> string option" where
  "crop_rows e input_directory output_directory window_size step_size tif_path ds [] = ([], None)"
| "crop_rows e input_directory output_directory window_size step_size tif_path ds (top' # tops) =
     (case py_range 0 (RasterXSize ds - fst window_size + 1) step_size of
        Inl msg \<Rightarrow> ([], Some msg)
      | Inr lefts \<Rightarrow>
          (case crop_row e input_directory output_directory window_size tif_path ds top' lefts of
             (evs, Some msg) \<Rightarrow> (evs, Some msg)
           | (evs, None) \<Rightarrow>
               (let (evs', exc) =
                      crop_rows e input_directory output_directory window_size step_size
                        tif_path ds tops
                in (evs @ evs', exc))))"

text \<open>Lines 35 to 54: the body of the \<open>try\<close>. \<open>continue\<close> leaves it without an
  exception.\<close>

definition try_body :: "env \<Rightarrow> string \<Rightarrow> string \<Rightarrow> int \<times> int \<Rightarrow> int \<Rightarrow> string \<Rightarrow>
    event list \<times> string option" where
  "try_body e input_directory output_directory window_size step_size tif_path =
     (case gdal_Open e tif_path of
        OpenRaises msg \<Rightarrow> ([Open tif_path], Some msg)
      | OpenNone \<Rightarrow> ([Open tif_path], None)
      | OpenDataset ds \<Rightarrow>
          (case py_range 0 (RasterYSize ds - snd window_size + 1) step_size of
             Inl msg \<Rightarrow> ([Open tif_path], Some msg)
           | Inr tops \<Rightarrow>
               (let (evs, exc) =
                      crop_rows e input_directory output_directory window_size step_size
                        tif_path ds tops
                in (Open tif_path # evs, exc))))"

text \<open>Lines 34 to 58: \<open>try\<close>, \<open>except Exception\<close>, \<open>finally\<close> for one file.\<close>

definition process_file :: "env \<Rightarrow> string \<Rightarrow> string \<Rightarrow> int \<times> int \<Rightarrow> int \<Rightarrow> string \<Rightarrow> event list" where
  "process_file e input_directory output_directory window_size step_size tif_path =
     (let (evs, exc) = try_body e input_directory output_directory window_size step_size tif_path
      in evs @
         (case exc of
            Some msg \<Rightarrow> [Print (''Error processing '' @ tif_path @ '': '' @ msg)]
          | None \<Rightarrow> []) @
         [BarUpdate 1])"

text \<open>Line 33: the loop over the files.\<close>

fun file_loop :: "env \<Rightarrow> string \<Rightarrow> string \<Rightarrow> int \<times> int \<Rightarrow> int \<Rightarrow> string list \<Rightarrow> event list" where
  "file_loop e input_directory output_directory window_size step_size [] = []"
| "file_loop e input_directory output_directory window_size step_size (tif_path # tif_paths) =
     process_file e input_directory output_directory window_size step_size tif_path @
     file_loop e input_directory output_directory window_size step_size tif_paths"

text \<open>The whole function: the calls it makes, and \<open>Some msg\<close> when an exception
  leaves it, \<open>None\<close> when it returns (it returns no value).\<close>

definition crop_tif_images_with_gdal :: "env \<Rightarrow> string \<Rightarrow> string \<Rightarrow> int \<times> int \<Rightarrow> int \<Rightarrow>
    event list \<times> string option" where
  "crop_tif_images_with_gdal e input_directory output_directory window_size step_size =
     (let made = (if \<not> os_path_exists e output_directory then [Makedirs output_directory] else []);
          failed = (if \<not> os_path_exists e output_directory then os_makedirs e output_directory
                    else None)
      in case failed of
           Some msg \<Rightarrow> (made, Some msg)
         | None \<Rightarrow>
             (let tif_paths = discover e input_directory
              in (made @ [Walk input_directory, BarNew (length tif_paths)] @
                  file_loop e input_directory output_directory window_size step_size tif_paths @
                  [BarClose],
                  None)))"

subsection \<open>What a run shows\<close>

text \<open>The crop requests, the printed lines, the calls on the progress bar and the
  calls of \<open>os.makedirs\<close> in a sequence of calls, each in order.\<close>

fun crop_of :: "event \<Rightarrow> (string \<times> dataset \<times> srcwin) list" where
  "crop_of (Translate p d sw) = [(p, d, sw)]"
| "crop_of _ = []"

definition crop_requests :: "event list \<Rightarrow> (string \<times> dataset \<times> srcwin) list" where
  "crop_requests evs = concat (map crop_of evs)"

fun line_of :: "event \<Rightarrow> string list" where
  "line_of (Print l) = [l]"
| "line_of _ = []"

definition log_lines :: "event list \<Rightarrow> string list" where
  "log_lines evs = concat (map line_of evs)"

fun bar_of :: "event \<Rightarrow> event list" where
  "bar_of (BarNew n) = [BarNew n]"
| "bar_of (BarUpdate n) = [BarUpdate n]"
| "bar_of BarClose = [BarClose]"
| "bar_of _ = []"

definition bar_events :: "event list \<Rightarrow> event list" where
  "bar_events evs = concat (map bar_of evs)"

fun makedirs_of :: "event \<Rightarrow> string list" where
  "makedirs_of (Makedirs d) = [d]"
| "makedirs_of _ = []"

definition makedirs_calls :: "event list \<Rightarrow> string list" where
  "makedirs_calls evs = concat (map makedirs_of evs)"

text \<open>The origin \<open>(top, left)\<close> of a crop request, and the strict lexicographic order
  on origins.\<close>

definition origin :: "string \<times> dataset \<times> srcwin \<Rightarrow> int \<times> int" where
  "origin r = (case r of (p, d, (left, top', w, h)) \<Rightarrow> (top', left))"

definition lex_less :: "int \<times> int \<Rightarrow> int \<times> int \<Rightarrow> bool" where
  "lex_less a b = (fst a < fst b \<or> (fst a = fst b \<and> snd a < snd b))"

text \<open>The grid in row-major order: \<open>ny\<close> rows \<open>0, s, 2s, ...\<close> of \<open>nx\<close> columns
  \<open>0, s, 2s, ...\<close> each.\<close>

definition row_major_grid :: "int \<Rightarrow> nat \<Rightarrow> nat \<Rightarrow> (int \<times> int) list" where
  "row_major_grid s ny nx =
     concat (map (\<lambda>i. map (\<lambda>j. (int i * s, int j * s)) [0..<nx]) [0..<ny])"

text \<open>The crop request that lines 43 to 54 make for one origin, and the requests of
  a whole file when no call raises.\<close>

definition crop_request :: "string \<Rightarrow> int \<times> int \<Rightarrow> string \<Rightarrow> dataset \<Rightarrow> int \<Rightarrow> int \<Rightarrow>
    string \<times> dataset \<times> srcwin" where
  "crop_request output_directory window_size relative_path ds top' left =
     (os_path_join output_directory
        (cropped_img_name relative_path left top' (left + fst window_size)
           (top' + snd window_size)),
      ds, (left, top', fst window_size, snd window_size))"

definition planned_crops :: "string \<Rightarrow> int \<times> int \<Rightarrow> string \<Rightarrow> dataset \<Rightarrow> int list \<Rightarrow> int list \<Rightarrow>
    (string \<times> dataset \<times> srcwin) list" where
  "planned_crops output_directory window_size relative_path ds tops lefts =
     concat (map (\<lambda>top'. map (crop_request output_directory window_size relative_path ds top') lefts)
               tops)"

text \<open>Crop calls made one after the other until one raises: what the two nested
  loops amount to.\<close>

fun crop_all :: "env \<Rightarrow> (string \<times> dataset \<times> srcwin) list \<Rightarrow> event list \<times> string option" where
  "crop_all e [] = ([], None)"
| "crop_all e ((p, d, sw) # rs) =
     (case gdal_Translate e p d sw of
        Some msg \<Rightarrow> ([Translate p d sw], Some msg)
      | None \<Rightarrow> (let (evs, exc) = crop_all e rs in (Translate p d sw # evs, exc)))"

text \<open>The files in the output directory after a sequence of calls, starting from the
  files \<open>files\<close>: a crop call that returns leaves at its path what the library writes
  for the dataset and the window, \<open>content dataset srcwin\<close>, for whatever function
  \<open>content\<close> the library computes; a call that raises leaves the directory as it
  was.\<close>

fun written :: "env \<Rightarrow> (dataset \<Rightarrow> srcwin \<Rightarrow> 'b) \<Rightarrow> event list \<Rightarrow> (string \<rightharpoonup> 'b) \<Rightarrow>
    (string \<rightharpoonup> 'b)" where
  "written e content [] files = files"
| "written e content (Translate p d sw # evs) files =
     written e content evs
       (if gdal_Translate e p d sw = None then files(p \<mapsto> content d sw) else files)"
| "written e content (ev # evs) files = written e content evs files"

subsection \<open>The final extension, in the words of the specification\<close>

text \<open>
  The specification splits the relative path into \<open>base\<close>, the path without its final
  extension, and \<open>ext\<close>, the extension with its leading dot. Written out without
  indices: the final extension belongs to the last component of the path; dots at the
  start of that component do not begin an extension; behind them, the extension is
  the last dot and what follows it, and there is none when no dot is left.
\<close>

definition last_component :: "string \<Rightarrow> string" where
  "last_component p = rev (takeWhile (\<lambda>c. c \<noteq> CHR ''/'') (rev p))"

definition spec_final_extension :: "string \<Rightarrow> string" where
  "spec_final_extension p =
     (let stem = dropWhile (\<lambda>c. c = CHR ''.'') (last_component p)
      in if CHR ''.'' \<in> set stem
         then CHR ''.'' # rev (takeWhile (\<lambda>c. c \<noteq> CHR ''.'') (rev stem))
         else [])"

definition spec_base :: "string \<Rightarrow> string" where
  "spec_base p = take (length p - length (spec_final_extension p)) p"

subsection \<open>Example worlds\<close>

text \<open>
  A tree \<open>in\<close> with a text file, a raster \<open>in/a/b.tif\<close> of 2000 by 1500 pixels, a
  file \<open>in/a/c.TIF\<close> that the library cannot open, and a file \<open>in/e.tif\<close> on which
  opening raises. The output directory does not exist yet.
\<close>

definition b_tif :: dataset where
  "b_tif = \<lparr>description = ''in/a/b.tif'', RasterXSize = 2000, RasterYSize = 1500\<rparr>"

definition example_env :: env where
  "example_env =
     \<lparr>os_path_exists = (\<lambda>p. False),
      os_makedirs = (\<lambda>p. None),
      os_walk = (\<lambda>d. if d = ''in''
                       then [(''in'', [''a''], [''notes.txt'', ''e.tif'']),
                             (''in/a'', [], [''b.tif'', ''c.TIF''])]
                       else []),
      os_getcwd = ''/home/user'',
      gdal_Open = (\<lambda>p. if p = ''in/a/b.tif'' then OpenDataset b_tif
                        else if p = ''in/a/c.TIF'' then OpenNone
                        else OpenRaises ''not recognized as a supported file format''),
      gdal_Translate = (\<lambda>p d sw. None)\<rparr>"


definition readonly_env :: env where
  "readonly_env = example_env\<lparr>os_makedirs := (\<lambda>p. Some ''Permission denied'')\<rparr>"


subsection \<open>Names in a directory\<close>

text \<open>A name that a directory listing gives: not empty, without a separator, and
  neither of the two special names. \<open>os.walk\<close> yields the directory it is given
  joined with such names, and its file names are such names.\<close>

definition entry_name :: "string \<Rightarrow> bool" where
  "entry_name n = (n \<noteq> [] \<and> sep \<notin> set n \<and> n \<noteq> ''.'' \<and> n \<noteq> ''..'')"

subsection \<open>The loops over the windows\<close>

lemma crop_requests_append: "crop_requests (xs @ ys) = crop_requests xs @ crop_requests ys"
  by (simp add: crop_requests_def)

lemma crop_requests_Cons_Translate:
  "crop_requests (Translate p d sw # evs) = (p, d, sw) # crop_requests evs"
  by (simp add: crop_requests_def)

lemma crop_row_relpath_fails:
  assumes "os_path_relpath (os_getcwd e) tif_path ind = Inl msg"
  shows "fst (crop_row e ind outd ws tif_path ds t lefts) = []"
  using assms by (cases lefts) simp_all

lemma crop_row_prefix:
  assumes "os_path_relpath (os_getcwd e) tif_path ind = Inr rel"
  shows "prefix (crop_requests (fst (crop_row e ind outd ws tif_path ds t lefts)))
           (map (crop_request outd ws rel ds t) lefts)"
  using assms
  by (induction lefts)
     (auto simp: crop_requests_def crop_request_def Let_def split: option.splits prod.splits)

lemma crop_row_returns:
  assumes "os_path_relpath (os_getcwd e) tif_path ind = Inr rel"
    and "snd (crop_row e ind outd ws tif_path ds t lefts) = None"
  shows "crop_requests (fst (crop_row e ind outd ws tif_path ds t lefts)) =
           map (crop_request outd ws rel ds t) lefts"
  using assms
  by (induction lefts)
     (auto simp: crop_requests_def crop_request_def Let_def split: option.splits prod.splits)

lemma crop_row_full:
  assumes "os_path_relpath (os_getcwd e) tif_path ind = Inr rel"
    and "\<And>p sw. gdal_Translate e p ds sw = None"
  shows "crop_row e ind outd ws tif_path ds t lefts =
           (map (\<lambda>(p, d, sw). Translate p d sw) (map (crop_request outd ws rel ds t) lefts), None)"
  using assms
  by (induction lefts) (auto simp: crop_request_def Let_def split: option.splits prod.splits)

lemma crop_rows_relpath_fails:
  assumes "os_path_relpath (os_getcwd e) tif_path ind = Inl msg"
  shows "fst (crop_rows e ind outd ws s tif_path ds tops) = []"
  using assms
proof (induction tops)
  case Nil
  then show ?case by simp
next
  case (Cons t tops)
  have r: "fst (crop_row e ind outd ws tif_path ds t lefts) = []" for lefts
    using Cons.prems by (rule crop_row_relpath_fails)
  show ?case
  proof (cases "py_range 0 (RasterXSize ds - fst ws + 1) s")
    case (Inl m)
    then show ?thesis by simp
  next
    case (Inr lefts)
    obtain evs exc where cr: "crop_row e ind outd ws tif_path ds t lefts = (evs, exc)"
      by (cases "crop_row e ind outd ws tif_path ds t lefts")
    with r [of lefts] have "evs = []" by simp
    with Inr cr Cons show ?thesis
      by (cases exc) (auto split: prod.splits)
  qed
qed

lemma crop_rows_prefix:
  assumes "os_path_relpath (os_getcwd e) tif_path ind = Inr rel"
    and "py_range 0 (RasterXSize ds - fst ws + 1) s = Inr lefts"
  shows "prefix (crop_requests (fst (crop_rows e ind outd ws s tif_path ds tops)))
           (planned_crops outd ws rel ds tops lefts)"
proof (induction tops)
  case Nil
  show ?case by (simp add: crop_requests_def)
next
  case (Cons t tops)
  obtain evs exc where cr: "crop_row e ind outd ws tif_path ds t lefts = (evs, exc)"
    by (cases "crop_row e ind outd ws tif_path ds t lefts")
  have pl: "planned_crops outd ws rel ds (t # tops) lefts =
              map (crop_request outd ws rel ds t) lefts @ planned_crops outd ws rel ds tops lefts"
    by (simp add: planned_crops_def)
  show ?case
  proof (cases exc)
    case None
    with cr have "crop_requests evs = map (crop_request outd ws rel ds t) lefts"
      using crop_row_returns [OF assms(1), of outd ws ds t lefts] by simp
    with None cr assms(2) Cons show ?thesis
      by (auto simp: pl crop_requests_append split: prod.splits)
  next
    case (Some m)
    have "prefix (crop_requests evs) (map (crop_request outd ws rel ds t) lefts)"
      using crop_row_prefix [OF assms(1), of outd ws ds t lefts] cr by simp
    with Some cr assms(2) show ?thesis
      by (simp add: pl prefix_prefix)
  qed
qed

lemma crop_rows_full:
  assumes "os_path_relpath (os_getcwd e) tif_path ind = Inr rel"
    and "py_range 0 (RasterXSize ds - fst ws + 1) s = Inr lefts"
    and "\<And>p sw. gdal_Translate e p ds sw = None"
  shows "crop_rows e ind outd ws s tif_path ds tops =
           (map (\<lambda>(p, d, sw). Translate p d sw) (planned_crops outd ws rel ds tops lefts), None)"
proof (induction tops)
  case Nil
  show ?case by (simp add: planned_crops_def)
next
  case (Cons t tops)
  have pl: "planned_crops outd ws rel ds (t # tops) lefts =
              map (crop_request outd ws rel ds t) lefts @ planned_crops outd ws rel ds tops lefts"
    by (simp add: planned_crops_def)
  show ?case
    using Cons assms(2) crop_row_full [OF assms(1) assms(3), of outd ws t lefts]
    by (simp add: pl)
qed

lemma crop_requests_map_Translate:
  "crop_requests (map (\<lambda>(p, d, sw). Translate p d sw) rs) = rs"
  by (induction rs) (auto simp: crop_requests_def)

lemma crop_requests_try_body:
  assumes "gdal_Open e tif_path = OpenDataset ds"
    and "py_range 0 (RasterYSize ds - snd ws + 1) s = Inr tops"
  shows "crop_requests (fst (try_body e ind outd ws s tif_path)) =
           crop_requests (fst (crop_rows e ind outd ws s tif_path ds tops))"
  using assms by (simp add: try_body_def crop_requests_def split: prod.splits)

lemma crop_requests_process_file:
  "crop_requests (process_file e ind outd ws s tif_path) =
     crop_requests (fst (try_body e ind outd ws s tif_path))"
  by (auto simp: process_file_def crop_requests_def split: prod.splits option.splits)

subsection \<open>Discovery and ranges\<close>

lemma collect_files_eq:
  "collect_files subdir files tif_paths =
     tif_paths @ map (os_path_join subdir)
       (filter (\<lambda>file. py_endswith (py_lower file) (CHR ''.'' # supported_format)) files)"
  by (induction files arbitrary: tif_paths) auto

lemma collect_walk_eq:
  "collect_walk w tif_paths =
     tif_paths @ concat (map (\<lambda>(subdir, dirs, files). map (os_path_join subdir)
       (filter (\<lambda>file. py_endswith (py_lower file) (CHR ''.'' # supported_format)) files)) w)"
  by (induction w arbitrary: tif_paths) (auto simp: collect_files_eq)

lemma os_path_join_nonempty: "b \<noteq> [] \<Longrightarrow> os_path_join a b \<noteq> []"
  by (simp add: os_path_join_def)

lemma discover_nonempty:
  assumes "tif_path \<in> set (discover e ind)"
  shows "tif_path \<noteq> []"
proof -
  from assms obtain subdir f where
    "tif_path = os_path_join subdir f"
    "py_endswith (py_lower f) (CHR ''.'' # supported_format)"
    by (auto simp: discover_def collect_walk_eq)
  moreover from this have "f \<noteq> []"
    by (auto simp: py_endswith_def py_lower_def)
  ultimately show ?thesis
    by (simp add: os_path_join_nonempty)
qed

lemma relpath_nonempty:
  "tif_path \<noteq> [] \<Longrightarrow> \<exists>rel. os_path_relpath cwd tif_path start = Inr rel"
  by (simp add: os_path_relpath_def Let_def)

lemma py_range_pos:
  "0 < s \<Longrightarrow> py_range 0 stop s = Inr (map (\<lambda>k. int k * s) [0..<range_len 0 stop s])"
  by (simp add: py_range_def)

lemma range_len_pos:
  "0 < s \<Longrightarrow> range_len 0 (n + 1) s = (if 0 \<le> n then nat (n div s + 1) else 0)"
  by (simp add: range_len_def)

lemma range_item_bounds:
  assumes "0 < s" and "k < range_len 0 (n + 1) s"
  shows "0 \<le> int k * s \<and> int k * s \<le> n"
proof -
  from assms have n: "0 \<le> n" and k: "int k \<le> n div s"
    by (auto simp: range_len_pos split: if_splits)
  have "int k * s \<le> (n div s) * s"
    using k assms(1) by (simp add: mult_right_mono)
  also have "\<dots> \<le> n"
  proof -
    have "n div s * s + n mod s = n" by simp
    moreover have "0 \<le> n mod s" using assms(1) by simp
    ultimately show ?thesis by linarith
  qed
  finally show ?thesis using assms(1) by simp
qed

lemma length_planned_crops:
  "length (planned_crops outd ws rel ds tops lefts) = length tops * length lefts"
  by (induction tops) (simp_all add: planned_crops_def)

lemma floor_count: "0 < s \<Longrightarrow> \<lfloor>real_of_int n / real_of_int s + 1\<rfloor> = n div s + 1"
  by (simp add: floor_divide_of_int_eq)

subsection \<open>The number of tiles\<close>

lemma crops_of_file_prefix:
  assumes "gdal_Open e tif_path = OpenDataset ds" and "0 < s"
    and "os_path_relpath (os_getcwd e) tif_path ind = Inr rel"
  shows "prefix (crop_requests (process_file e ind outd ws s tif_path))
           (planned_crops outd ws rel ds
              (map (\<lambda>k. int k * s) [0..<range_len 0 (RasterYSize ds - snd ws + 1) s])
              (map (\<lambda>k. int k * s) [0..<range_len 0 (RasterXSize ds - fst ws + 1) s]))"
  using assms crop_rows_prefix [OF assms(3) py_range_pos [OF assms(2)]]
  by (simp add: crop_requests_process_file crop_requests_try_body [OF assms(1) py_range_pos])

lemma crops_of_file_full:
  assumes "gdal_Open e tif_path = OpenDataset ds" and "0 < s"
    and "os_path_relpath (os_getcwd e) tif_path ind = Inr rel"
    and "\<And>p sw. gdal_Translate e p ds sw = None"
  shows "crop_requests (process_file e ind outd ws s tif_path) =
           planned_crops outd ws rel ds
              (map (\<lambda>k. int k * s) [0..<range_len 0 (RasterYSize ds - snd ws + 1) s])
              (map (\<lambda>k. int k * s) [0..<range_len 0 (RasterXSize ds - fst ws + 1) s])"
  using assms crop_rows_full [OF assms(3) py_range_pos [OF assms(2)] assms(4)]
  by (simp add: crop_requests_process_file crop_requests_try_body [OF assms(1) py_range_pos]
        crop_requests_map_Translate)

lemma crops_of_file_no_relpath:
  assumes "os_path_relpath (os_getcwd e) tif_path ind = Inl msg"
  shows "crop_requests (process_file e ind outd ws s tif_path) = []"
proof -
  have "crop_requests (fst (try_body e ind outd ws s tif_path)) = []"
  proof (cases "gdal_Open e tif_path")
    case (OpenDataset ds)
    show ?thesis
    proof (cases "py_range 0 (RasterYSize ds - snd ws + 1) s")
      case (Inl m)
      with OpenDataset show ?thesis by (simp add: try_body_def crop_requests_def)
    next
      case (Inr tops)
      obtain evs exc where cr: "crop_rows e ind outd ws s tif_path ds tops = (evs, exc)"
        by (cases "crop_rows e ind outd ws s tif_path ds tops")
      with crop_rows_relpath_fails [OF assms, of outd ws s ds tops] have "evs = []" by simp
      with OpenDataset Inr cr show ?thesis by (simp add: try_body_def crop_requests_def)
    qed
  qed (simp_all add: try_body_def crop_requests_def)
  then show ?thesis by (simp add: crop_requests_process_file)
qed

text \<open>
  C1. A discovered file that opens as a raster of \<open>W\<close> by \<open>H\<close> pixels and all of whose
  crop calls return is cropped \<open>floor((H-h)/s + 1) * floor((W-w)/s + 1)\<close> times when
  \<open>w \<le> W\<close> and \<open>h \<le> H\<close>, and not at all otherwise, for every positive step \<open>s\<close>.
\<close>

theorem tile_count:
  assumes "tif_path \<in> set (discover e ind)"
    and "gdal_Open e tif_path = OpenDataset ds"
    and "0 < s"
    and "\<forall>p sw. gdal_Translate e p ds sw = None"
  shows "int (length (crop_requests (process_file e ind outd (w, h) s tif_path))) =
           (if w \<le> RasterXSize ds \<and> h \<le> RasterYSize ds
            then \<lfloor>real_of_int (RasterYSize ds - h) / real_of_int s + 1\<rfloor> *
                 \<lfloor>real_of_int (RasterXSize ds - w) / real_of_int s + 1\<rfloor>
            else 0)"
proof -
  from assms(1) obtain rel where rel: "os_path_relpath (os_getcwd e) tif_path ind = Inr rel"
    using relpath_nonempty [OF discover_nonempty] by blast
  have len: "length (crop_requests (process_file e ind outd (w, h) s tif_path)) =
               range_len 0 (RasterYSize ds - h + 1) s * range_len 0 (RasterXSize ds - w + 1) s"
    using crops_of_file_full [OF assms(2) assms(3) rel, of outd "(w, h)"] assms(4)
    by (simp add: length_planned_crops)
  have ny: "0 \<le> (RasterYSize ds - h) div s + 1" if "h \<le> RasterYSize ds"
    using that assms(3) by (simp add: pos_imp_zdiv_nonneg_iff add_nonneg_nonneg)
  have nx: "0 \<le> (RasterXSize ds - w) div s + 1" if "w \<le> RasterXSize ds"
    using that assms(3) by (simp add: pos_imp_zdiv_nonneg_iff add_nonneg_nonneg)
  show ?thesis
    unfolding floor_count [OF assms(3)] len
    using assms(3) ny nx
    by (simp add: range_len_pos nat_mult_distrib)
qed

theorem tile_count_witness:
  "int (length (crop_requests
      (process_file example_env ''in'' ''out'' (1000, 1000) 1000 ''in/a/b.tif''))) = 2"
proof -
  have 1: "''in/a/b.tif'' \<in> set (discover example_env ''in'')"
    by code_simp
  have 2: "gdal_Open example_env ''in/a/b.tif'' = OpenDataset b_tif"
    by (simp add: example_env_def)
  have 3: "\<forall>p sw. gdal_Translate example_env p b_tif sw = None"
    by (simp add: example_env_def)
  show ?thesis
    using tile_count [OF 1 2 _ 3, of 1000 "''out''" 1000 1000]
    by (simp add: b_tif_def)
qed

subsection \<open>Windows and their order\<close>

lemma origin_crop_request [simp]: "origin (crop_request outd ws rel ds t l) = (t, l)"
  by (simp add: origin_def crop_request_def)

lemma origins_planned:
  "map origin (planned_crops outd ws rel ds (map (\<lambda>k. int k * s) [0..<ny])
                 (map (\<lambda>k. int k * s) [0..<nx])) = row_major_grid s ny nx"
  by (simp add: planned_crops_def row_major_grid_def map_concat comp_def)

lemma row_major_grid_Suc:
  "row_major_grid s (Suc n) nx =
     row_major_grid s n nx @ map (\<lambda>j. (int n * s, int j * s)) [0..<nx]"
  by (simp add: row_major_grid_def)

lemma row_major_grid_fst:
  "x \<in> set (row_major_grid s n nx) \<Longrightarrow> \<exists>i<n. fst x = int i * s"
  by (auto simp: row_major_grid_def)

lemma sorted_row:
  assumes "0 < s"
  shows "sorted_wrt lex_less (map (\<lambda>j. (t, int j * s)) [0..<nx])"
proof -
  have "sorted_wrt (\<lambda>a b. lex_less (t, int a * s) (t, int b * s)) [0..<nx]"
    by (rule sorted_wrt_mono_rel [OF _ sorted_wrt_upt]) (use assms in \<open>simp add: lex_less_def\<close>)
  then show ?thesis by (simp add: sorted_wrt_map)
qed

lemma sorted_row_major_grid:
  assumes "0 < s"
  shows "sorted_wrt lex_less (row_major_grid s ny nx)"
proof (induction ny)
  case 0
  show ?case by (simp add: row_major_grid_def)
next
  case (Suc n)
  have "lex_less x y"
    if "x \<in> set (row_major_grid s n nx)" "y \<in> set (map (\<lambda>j. (int n * s, int j * s)) [0..<nx])"
    for x y
  proof -
    from that(1) obtain i where "i < n" "fst x = int i * s"
      using row_major_grid_fst by blast
    moreover from that(2) have "fst y = int n * s" by auto
    ultimately show ?thesis using assms by (simp add: lex_less_def)
  qed
  with Suc sorted_row [OF assms] show ?case
    by (simp add: row_major_grid_Suc sorted_wrt_append)
qed

lemma sorted_wrt_prefix: "prefix ys xs \<Longrightarrow> sorted_wrt P xs \<Longrightarrow> sorted_wrt P ys"
  by (auto simp: prefix_def sorted_wrt_append)

lemma mem_planned_crops:
  "r \<in> set (planned_crops outd ws rel ds tops lefts) \<longleftrightarrow>
     (\<exists>t \<in> set tops. \<exists>l \<in> set lefts. r = crop_request outd ws rel ds t l)"
  by (auto simp: planned_crops_def)

text \<open>
  C2. Every crop request made for a file that opened with \<open>W\<close> by \<open>H\<close> pixels, with
  a positive step, has the source window \<open>(left, top, w, h)\<close> with \<open>0 \<le> left\<close>,
  \<open>right = left + w \<le> W\<close>, \<open>0 \<le> top\<close> and \<open>bottom = top + h \<le> H\<close>, where \<open>right\<close>
  and \<open>bottom\<close> are the values written into the name of the tile.
\<close>

theorem windows_inside_raster:
  assumes "gdal_Open e tif_path = OpenDataset ds"
    and "0 < s"
    and "os_path_relpath (os_getcwd e) tif_path ind = Inr rel"
    and "(p, d, (left, top', ww, hh)) \<in>
           set (crop_requests (process_file e ind outd (w, h) s tif_path))"
  shows "let right = left + w; bottom = top' + h
         in 0 \<le> left \<and> right \<le> RasterXSize ds \<and> 0 \<le> top' \<and> bottom \<le> RasterYSize ds \<and>
            (ww, hh) = (w, h) \<and>
            p = os_path_join outd (cropped_img_name rel left top' right bottom)"
proof -
  let ?tops = "map (\<lambda>k. int k * s) [0..<range_len 0 (RasterYSize ds - h + 1) s]"
  let ?lefts = "map (\<lambda>k. int k * s) [0..<range_len 0 (RasterXSize ds - w + 1) s]"
  have "(p, d, (left, top', ww, hh)) \<in> set (planned_crops outd (w, h) rel ds ?tops ?lefts)"
    using set_mono_prefix [OF crops_of_file_prefix [OF assms(1,2,3), of outd "(w, h)"]] assms(4)
    by auto
  then obtain t l where t: "t \<in> set ?tops" and l: "l \<in> set ?lefts"
    and r: "(p, d, (left, top', ww, hh)) = crop_request outd (w, h) rel ds t l"
    unfolding mem_planned_crops by blast
  from r have eq: "left = l" "top' = t" "ww = w" "hh = h"
    "p = os_path_join outd (cropped_img_name rel l t (l + w) (t + h))"
    by (simp_all add: crop_request_def)
  from t obtain i where "i < range_len 0 (RasterYSize ds - h + 1) s" "t = int i * s" by auto
  then have tb: "0 \<le> t \<and> t \<le> RasterYSize ds - h"
    using range_item_bounds [OF assms(2)] by blast
  from l obtain j where "j < range_len 0 (RasterXSize ds - w + 1) s" "l = int j * s" by auto
  then have lb: "0 \<le> l \<and> l \<le> RasterXSize ds - w"
    using range_item_bounds [OF assms(2)] by blast
  show ?thesis
    using eq tb lb by (simp add: Let_def)
qed

theorem windows_inside_raster_witness:
  "let right = 1000 + 1000; bottom = 0 + 1000
   in (0::int) \<le> 1000 \<and> right \<le> RasterXSize b_tif \<and> (0::int) \<le> 0 \<and> bottom \<le> RasterYSize b_tif \<and>
      ((1000::int), (1000::int)) = (1000, 1000) \<and>
      ''out/a_b_1000_0_2000_1000.tif'' =
        os_path_join ''out'' (cropped_img_name ''a/b.tif'' 1000 0 right bottom)"
proof -
  have 1: "gdal_Open example_env ''in/a/b.tif'' = OpenDataset b_tif"
    by (simp add: example_env_def)
  have 2: "os_path_relpath (os_getcwd example_env) ''in/a/b.tif'' ''in'' = Inr ''a/b.tif''"
    by code_simp
  have 3: "(''out/a_b_1000_0_2000_1000.tif'', b_tif, (1000, 0, 1000, 1000)) \<in>
             set (crop_requests (process_file example_env ''in'' ''out'' (1000, 1000)
                    1000 ''in/a/b.tif''))"
    by code_simp
  show ?thesis
    using windows_inside_raster [OF 1 _ 2 3] by simp
qed

text \<open>
  C10. The crop requests of a file come in row-major order: their origins
  \<open>(top, left)\<close> are an initial part of the grid whose rows are \<open>0, s, 2s, ...\<close> and
  whose columns, within each row, are \<open>0, s, 2s, ...\<close>, they are strictly increasing
  in the lexicographic order, and they are the whole grid when no call raises.
\<close>

theorem row_major_order:
  assumes "gdal_Open e tif_path = OpenDataset ds"
    and "0 < s"
  shows "let origins = map origin (crop_requests (process_file e ind outd (w, h) s tif_path));
             ny = (if h \<le> RasterYSize ds then nat ((RasterYSize ds - h) div s + 1) else 0);
             nx = (if w \<le> RasterXSize ds then nat ((RasterXSize ds - w) div s + 1) else 0)
         in prefix origins (row_major_grid s ny nx) \<and>
            sorted_wrt lex_less origins \<and>
            (tif_path \<noteq> [] \<and> (\<forall>p sw. gdal_Translate e p ds sw = None) \<longrightarrow>
               origins = row_major_grid s ny nx)"
proof -
  let ?origins = "map origin (crop_requests (process_file e ind outd (w, h) s tif_path))"
  let ?ny = "range_len 0 (RasterYSize ds - h + 1) s"
  let ?nx = "range_len 0 (RasterXSize ds - w + 1) s"
  have pre: "prefix ?origins (row_major_grid s ?ny ?nx)"
  proof (cases "os_path_relpath (os_getcwd e) tif_path ind")
    case (Inl msg)
    then show ?thesis by (simp add: crops_of_file_no_relpath)
  next
    case (Inr rel)
    show ?thesis
      using map_mono_prefix [OF crops_of_file_prefix [OF assms Inr, of outd "(w, h)"], of origin]
      by (simp add: origins_planned)
  qed
  have srt: "sorted_wrt lex_less ?origins"
    using sorted_wrt_prefix [OF pre sorted_row_major_grid [OF assms(2)]] .
  have full: "?origins = row_major_grid s ?ny ?nx"
    if "tif_path \<noteq> []" "\<forall>p sw. gdal_Translate e p ds sw = None"
  proof -
    from that(1) obtain rel where rel: "os_path_relpath (os_getcwd e) tif_path ind = Inr rel"
      using relpath_nonempty by blast
    show ?thesis
      using crops_of_file_full [OF assms rel, of outd "(w, h)"] that(2)
      by (simp add: origins_planned)
  qed
  have ny: "?ny = (if h \<le> RasterYSize ds then nat ((RasterYSize ds - h) div s + 1) else 0)"
    using assms(2) by (simp add: range_len_pos)
  have nx: "?nx = (if w \<le> RasterXSize ds then nat ((RasterXSize ds - w) div s + 1) else 0)"
    using assms(2) by (simp add: range_len_pos)
  show ?thesis
    unfolding Let_def ny [symmetric] nx [symmetric]
    using pre srt full by blast
qed

theorem row_major_order_witness:
  "map origin (crop_requests
      (process_file example_env ''in'' ''out'' (600, 400) 500 ''in/a/b.tif'')) =
     row_major_grid 500 3 3 \<and>
   sorted_wrt lex_less (map origin (crop_requests
      (process_file example_env ''in'' ''out'' (600, 400) 500 ''in/a/b.tif''))) \<and>
   row_major_grid 500 3 3 =
     [(0, 0), (0, 500), (0, 1000), (500, 0), (500, 500), (500, 1000),
      (1000, 0), (1000, 500), (1000, 1000)]"
proof -
  have 1: "gdal_Open example_env ''in/a/b.tif'' = OpenDataset b_tif"
    by (simp add: example_env_def)
  have 2: "\<forall>p sw. gdal_Translate example_env p b_tif sw = None"
    by (simp add: example_env_def)
  have 3: "row_major_grid 500 3 3 =
     [(0, 0), (0, 500), (0, 1000), (500, 0), (500, 500), (500, 1000),
      (1000, 0), (1000, 500), (1000, 1000)]"
    by code_simp
  show ?thesis
    using row_major_order [OF 1, where s = 500 and ind = "''in''" and outd = "''out''"
        and w = 600 and h = 400] 2 3
    by (simp add: Let_def b_tif_def lex_less_def)
qed

subsection \<open>The calls made for one file\<close>

lemma crop_row_events:
  "ev \<in> set (fst (crop_row e ind outd ws tif_path ds t lefts)) \<Longrightarrow> \<exists>p d sw. ev = Translate p d sw"
  by (induction lefts) (auto simp: Let_def split: option.splits prod.splits sum.splits)

lemma crop_rows_events:
  "ev \<in> set (fst (crop_rows e ind outd ws s tif_path ds tops)) \<Longrightarrow> \<exists>p d sw. ev = Translate p d sw"
proof (induction tops)
  case Nil
  then show ?case by simp
next
  case (Cons t tops)
  show ?case
  proof (cases "py_range 0 (RasterXSize ds - fst ws + 1) s")
    case (Inl m)
    with Cons.prems show ?thesis by simp
  next
    case (Inr lefts)
    obtain evs exc where cr: "crop_row e ind outd ws tif_path ds t lefts = (evs, exc)"
      by (cases "crop_row e ind outd ws tif_path ds t lefts")
    obtain evs' exc' where crs: "crop_rows e ind outd ws s tif_path ds tops = (evs', exc')"
      by (cases "crop_rows e ind outd ws s tif_path ds tops")
    have "ev \<in> set evs \<or> ev \<in> set evs'"
      using Cons.prems Inr cr crs by (cases exc) auto
    then show ?thesis
    proof
      assume "ev \<in> set evs"
      with cr show ?thesis using crop_row_events [of ev e ind outd ws tif_path ds t lefts] by simp
    next
      assume "ev \<in> set evs'"
      with crs Cons.IH show ?thesis by simp
    qed
  qed
qed

lemma try_body_events:
  assumes "ev \<in> set (fst (try_body e ind outd ws s tif_path))"
  shows "ev = Open tif_path \<or> (\<exists>p d sw. ev = Translate p d sw)"
proof (cases "gdal_Open e tif_path")
  case (OpenDataset ds)
  show ?thesis
  proof (cases "py_range 0 (RasterYSize ds - snd ws + 1) s")
    case (Inl m)
    with OpenDataset assms show ?thesis by (simp add: try_body_def)
  next
    case (Inr tops)
    obtain evs exc where crs: "crop_rows e ind outd ws s tif_path ds tops = (evs, exc)"
      by (cases "crop_rows e ind outd ws s tif_path ds tops")
    with OpenDataset Inr assms have "ev = Open tif_path \<or> ev \<in> set evs"
      by (simp add: try_body_def)
    with crs show ?thesis
      using crop_rows_events [of ev e ind outd ws s tif_path ds tops] by auto
  qed
qed (use assms in \<open>simp_all add: try_body_def\<close>)

lemma bar_events_try_body: "bar_events (fst (try_body e ind outd ws s tif_path)) = []"
proof -
  have "bar_of ev = []" if "ev \<in> set (fst (try_body e ind outd ws s tif_path))" for ev
    using try_body_events [OF that] by auto
  then show ?thesis by (simp add: bar_events_def)
qed


lemma makedirs_calls_try_body: "makedirs_calls (fst (try_body e ind outd ws s tif_path)) = []"
proof -
  have "makedirs_of ev = []" if "ev \<in> set (fst (try_body e ind outd ws s tif_path))" for ev
    using try_body_events [OF that] by auto
  then show ?thesis by (simp add: makedirs_calls_def)
qed

lemma hd_try_body: "\<exists>evs. fst (try_body e ind outd ws s tif_path) = Open tif_path # evs"
  by (simp add: try_body_def split: open_result.splits sum.splits prod.splits)

lemma file_loop_concat:
  "file_loop e ind outd ws s tif_paths = concat (map (process_file e ind outd ws s) tif_paths)"
  by (induction tif_paths) simp_all

lemma process_file_split:
  "process_file e ind outd ws s tif_path =
     fst (try_body e ind outd ws s tif_path) @
     (case snd (try_body e ind outd ws s tif_path) of
        Some msg \<Rightarrow> [Print (''Error processing '' @ tif_path @ '': '' @ msg)]
      | None \<Rightarrow> []) @ [BarUpdate 1]"
  by (simp add: process_file_def split: prod.splits)

subsection \<open>Files that do not open\<close>

lemma bar_events_process_file: "bar_events (process_file e ind outd ws s tif_path) = [BarUpdate 1]"
proof -
  have "bar_events (process_file e ind outd ws s tif_path) =
          bar_events (fst (try_body e ind outd ws s tif_path)) @ [BarUpdate 1]"
    by (cases "snd (try_body e ind outd ws s tif_path)")
       (simp_all add: process_file_split bar_events_def)
  then show ?thesis by (simp add: bar_events_try_body)
qed

lemma bar_events_file_loop:
  "bar_events (file_loop e ind outd ws s tif_paths) = replicate (length tif_paths) (BarUpdate 1)"
proof (induction tif_paths)
  case Nil
  show ?case by (simp add: bar_events_def)
next
  case (Cons p ps)
  have "bar_events (file_loop e ind outd ws s (p # ps)) =
          bar_events (process_file e ind outd ws s p) @ bar_events (file_loop e ind outd ws s ps)"
    by (simp add: bar_events_def)
  with Cons show ?case by (simp add: bar_events_process_file)
qed

lemma makedirs_calls_process_file: "makedirs_calls (process_file e ind outd ws s tif_path) = []"
proof -
  have "makedirs_calls (process_file e ind outd ws s tif_path) =
          makedirs_calls (fst (try_body e ind outd ws s tif_path))"
    by (cases "snd (try_body e ind outd ws s tif_path)")
       (simp_all add: process_file_split makedirs_calls_def)
  then show ?thesis by (simp add: makedirs_calls_try_body)
qed

lemma makedirs_calls_file_loop: "makedirs_calls (file_loop e ind outd ws s tif_paths) = []"
proof (induction tif_paths)
  case Nil
  show ?case by (simp add: makedirs_calls_def)
next
  case (Cons p ps)
  have "makedirs_calls (file_loop e ind outd ws s (p # ps)) =
          makedirs_calls (process_file e ind outd ws s p) @
          makedirs_calls (file_loop e ind outd ws s ps)"
    by (simp add: makedirs_calls_def)
  with Cons show ?case by (simp add: makedirs_calls_process_file)
qed

lemma run_created:
  assumes "os_path_exists e outd \<or> os_makedirs e outd = None"
  shows "crop_tif_images_with_gdal e ind outd ws s =
           ((if os_path_exists e outd then [] else [Makedirs outd]) @
            [Walk ind, BarNew (length (discover e ind))] @
            file_loop e ind outd ws s (discover e ind) @ [BarClose], None)"
  using assms by (auto simp: crop_tif_images_with_gdal_def Let_def)

lemma run_not_created:
  assumes "\<not> os_path_exists e outd" and "os_makedirs e outd = Some msg"
  shows "crop_tif_images_with_gdal e ind outd ws s = ([Makedirs outd], Some msg)"
  using assms by (simp add: crop_tif_images_with_gdal_def Let_def)

text \<open>
  C4 (as the code has it). A file for which \<open>gdal.Open\<close> returns \<open>None\<close> is skipped:
  it is opened, the progress bar is advanced, no crop is requested and no line is
  printed for it, and the loop goes on with the next file.
\<close>

theorem unopenable_file_skipped:
  assumes "gdal_Open e tif_path = OpenNone"
  shows "process_file e ind outd ws s tif_path = [Open tif_path, BarUpdate 1] \<and>
         crop_requests (process_file e ind outd ws s tif_path) = [] \<and>
         log_lines (process_file e ind outd ws s tif_path) = [] \<and>
         file_loop e ind outd ws s (tif_path # rest) =
           [Open tif_path, BarUpdate 1] @ file_loop e ind outd ws s rest"
proof -
  have "process_file e ind outd ws s tif_path = [Open tif_path, BarUpdate 1]"
    using assms by (simp add: process_file_def try_body_def)
  then show ?thesis
    by (simp add: crop_requests_def log_lines_def)
qed

theorem unopenable_file_skipped_witness:
  "process_file example_env ''in'' ''out'' (1000, 1000) 1000 ''in/a/c.TIF'' =
     [Open ''in/a/c.TIF'', BarUpdate 1] \<and>
   log_lines (process_file example_env ''in'' ''out'' (1000, 1000) 1000 ''in/a/c.TIF'') = [] \<and>
   file_loop example_env ''in'' ''out'' (1000, 1000) 1000 [''in/a/c.TIF'', ''in/e.tif''] =
     [Open ''in/a/c.TIF'', BarUpdate 1] @
     file_loop example_env ''in'' ''out'' (1000, 1000) 1000 [''in/e.tif'']"
proof -
  have 1: "gdal_Open example_env ''in/a/c.TIF'' = OpenNone"
    by (simp add: example_env_def)
  show ?thesis
    using unopenable_file_skipped [OF 1, of "''in''" "''out''" "(1000, 1000)" 1000 "[''in/e.tif'']"]
    by (simp add: log_lines_def)
qed

theorem unopenable_file_log_counterexample:
  "gdal_Open example_env ''in/a/c.TIF'' = OpenNone \<and>
   length (log_lines (process_file example_env ''in'' ''out'' (1000, 1000) 1000 ''in/a/c.TIF''))
     \<noteq> 1"
  by (simp add: example_env_def process_file_def try_body_def log_lines_def)

subsection \<open>Errors while a file is processed\<close>





lemma crop_row_crop_all:
  assumes "os_path_relpath (os_getcwd e) tif_path ind = Inr rel"
  shows "crop_row e ind outd ws tif_path ds t lefts =
           crop_all e (map (crop_request outd ws rel ds t) lefts)"
  using assms
  by (induction lefts) (auto simp: crop_request_def Let_def split: option.splits prod.splits)

lemma crop_all_append:
  "crop_all e (a @ b) =
     (case crop_all e a of
        (evs, Some m) \<Rightarrow> (evs, Some m)
      | (evs, None) \<Rightarrow> (let (evs', exc) = crop_all e b in (evs @ evs', exc)))"
  by (induction a) (auto split: option.splits prod.splits)

lemma crop_rows_crop_all:
  assumes "os_path_relpath (os_getcwd e) tif_path ind = Inr rel"
    and "py_range 0 (RasterXSize ds - fst ws + 1) s = Inr lefts"
  shows "crop_rows e ind outd ws s tif_path ds tops =
           crop_all e (planned_crops outd ws rel ds tops lefts)"
proof (induction tops)
  case Nil
  show ?case by (simp add: planned_crops_def)
next
  case (Cons t tops)
  have pl: "planned_crops outd ws rel ds (t # tops) lefts =
              map (crop_request outd ws rel ds t) lefts @ planned_crops outd ws rel ds tops lefts"
    by (simp add: planned_crops_def)
  show ?case
    using Cons assms(2)
    by (auto simp: pl crop_all_append crop_row_crop_all [OF assms(1)]
          split: prod.splits option.splits)
qed

lemma crop_all_first_error:
  assumes "\<forall>(p, d, sw) \<in> set done. gdal_Translate e p d sw = None"
    and "gdal_Translate e p d sw = Some msg"
  shows "crop_all e (done @ (p, d, sw) # rest) =
           (map (\<lambda>(p, d, sw). Translate p d sw) (done @ [(p, d, sw)]), Some msg)"
  using assms by (induction "done") (auto split: option.splits prod.splits)

text \<open>The crops of a file stop at the first call that raises: the requests before it
  and the failing request are made, the remaining ones are not.\<close>

lemma crops_stop_at_first_error:
  assumes "gdal_Open e tif_path = OpenDataset ds" and "0 < s"
    and "os_path_relpath (os_getcwd e) tif_path ind = Inr rel"
    and "planned_crops outd ws rel ds
           (map (\<lambda>k. int k * s) [0..<range_len 0 (RasterYSize ds - snd ws + 1) s])
           (map (\<lambda>k. int k * s) [0..<range_len 0 (RasterXSize ds - fst ws + 1) s]) =
         done @ (p, d, sw) # rest"
    and "\<forall>(p, d, sw) \<in> set done. gdal_Translate e p d sw = None"
    and "gdal_Translate e p d sw = Some msg"
  shows "try_body e ind outd ws s tif_path =
           (Open tif_path # map (\<lambda>(p, d, sw). Translate p d sw) (done @ [(p, d, sw)]), Some msg)"
proof -
  let ?tops = "map (\<lambda>k. int k * s) [0..<range_len 0 (RasterYSize ds - snd ws + 1) s]"
  have "crop_rows e ind outd ws s tif_path ds ?tops =
          crop_all e (done @ (p, d, sw) # rest)"
    using crop_rows_crop_all [OF assms(3) py_range_pos [OF assms(2)]] assms(4) by simp
  also have "\<dots> = (map (\<lambda>(p, d, sw). Translate p d sw) (done @ [(p, d, sw)]), Some msg)"
    by (rule crop_all_first_error [OF assms(5,6)])
  finally show ?thesis
    using assms(1) by (simp add: try_body_def py_range_pos [OF assms(2)])
qed

subsection \<open>The progress bar\<close>

lemma last_process_file: "last (process_file e ind outd ws s tif_path) = BarUpdate 1"
  by (simp add: process_file_split)

lemma hd_process_file: "hd (process_file e ind outd ws s tif_path) = Open tif_path"
  using hd_try_body [of e ind outd ws s tif_path]
  by (auto simp: process_file_split)

lemma bar_events_run:
  assumes "os_path_exists e outd \<or> os_makedirs e outd = None"
  shows "bar_events (fst (crop_tif_images_with_gdal e ind outd ws s)) =
           BarNew (length (discover e ind)) #
           replicate (length (discover e ind)) (BarUpdate 1) @ [BarClose]"
proof -
  have app: "bar_events (xs @ ys) = bar_events xs @ bar_events ys" for xs ys
    by (simp add: bar_events_def)
  have "bar_events (fst (crop_tif_images_with_gdal e ind outd ws s)) =
          bar_events [Walk ind, BarNew (length (discover e ind))] @
          bar_events (file_loop e ind outd ws s (discover e ind)) @ bar_events [BarClose]"
    unfolding run_created [OF assms] fst_conv app
    by (simp add: bar_events_def)
  then show ?thesis
    by (simp add: bar_events_file_loop) (simp add: bar_events_def)
qed

text \<open>
  C7. Every file is attempted in the same way, whatever happens to it: the calls for
  it start with the opening and end with one update of the progress bar by one, the
  only call on the bar among them. A run whose output directory exists or can be made
  attempts the discovered files one after the other, so the bar is created with their
  number, updated by one once per file, and closed as the last call; the function
  then returns without an exception, and it returns no value.
\<close>

theorem progress_advances_once_per_file:
  "hd (process_file e ind outd ws s tif_path) = Open tif_path \<and>
   last (process_file e ind outd ws s tif_path) = BarUpdate 1 \<and>
   bar_events (process_file e ind outd ws s tif_path) = [BarUpdate 1] \<and>
   (os_path_exists e outd \<or> os_makedirs e outd = None \<longrightarrow>
      crop_tif_images_with_gdal e ind outd ws s =
        ((if os_path_exists e outd then [] else [Makedirs outd]) @
         [Walk ind, BarNew (length (discover e ind))] @
         concat (map (process_file e ind outd ws s) (discover e ind)) @ [BarClose], None) \<and>
      bar_events (fst (crop_tif_images_with_gdal e ind outd ws s)) =
        BarNew (length (discover e ind)) #
        replicate (length (discover e ind)) (BarUpdate 1) @ [BarClose] \<and>
      last (fst (crop_tif_images_with_gdal e ind outd ws s)) = BarClose)"
proof -
  have run: "crop_tif_images_with_gdal e ind outd ws s =
        ((if os_path_exists e outd then [] else [Makedirs outd]) @
         [Walk ind, BarNew (length (discover e ind))] @
         concat (map (process_file e ind outd ws s) (discover e ind)) @ [BarClose], None)"
    if "os_path_exists e outd \<or> os_makedirs e outd = None"
    using run_created [OF that] by (simp add: file_loop_concat)
  have lst: "last (fst (crop_tif_images_with_gdal e ind outd ws s)) = BarClose"
    if "os_path_exists e outd \<or> os_makedirs e outd = None"
    unfolding run_created [OF that] by simp
  show ?thesis
    using run lst bar_events_run [of e outd ind ws s]
      hd_process_file [of e ind outd ws s tif_path]
      last_process_file [of e ind outd ws s tif_path]
      bar_events_process_file [of e ind outd ws s tif_path]
    by blast
qed

theorem progress_advances_once_per_file_witness:
  "crop_tif_images_with_gdal example_env ''in'' ''out'' (1000, 1000) 1000 =
     ([Makedirs ''out'', Walk ''in'', BarNew 3,
       Open ''in/e.tif'',
       Print ''Error processing in/e.tif: not recognized as a supported file format'',
       BarUpdate 1,
       Open ''in/a/b.tif'',
       Translate ''out/a_b_0_0_1000_1000.tif'' b_tif (0, 0, 1000, 1000),
       Translate ''out/a_b_1000_0_2000_1000.tif'' b_tif (1000, 0, 1000, 1000),
       BarUpdate 1,
       Open ''in/a/c.TIF'', BarUpdate 1,
       BarClose], None) \<and>
   bar_events (fst (crop_tif_images_with_gdal example_env ''in'' ''out'' (1000, 1000) 1000)) =
     [BarNew 3, BarUpdate 1, BarUpdate 1, BarUpdate 1, BarClose]"
proof -
  have 1: "os_makedirs example_env ''out'' = None"
    by (simp add: example_env_def)
  have 2: "discover example_env ''in'' = [''in/e.tif'', ''in/a/b.tif'', ''in/a/c.TIF'']"
    by code_simp
  have 3: "process_file example_env ''in'' ''out'' (1000, 1000) 1000 ''in/e.tif'' =
     [Open ''in/e.tif'',
      Print ''Error processing in/e.tif: not recognized as a supported file format'',
      BarUpdate 1]"
    by code_simp
  have 4: "process_file example_env ''in'' ''out'' (1000, 1000) 1000 ''in/a/b.tif'' =
     [Open ''in/a/b.tif'',
      Translate ''out/a_b_0_0_1000_1000.tif'' b_tif (0, 0, 1000, 1000),
      Translate ''out/a_b_1000_0_2000_1000.tif'' b_tif (1000, 0, 1000, 1000),
      BarUpdate 1]"
    by code_simp
  have 5: "process_file example_env ''in'' ''out'' (1000, 1000) 1000 ''in/a/c.TIF'' =
     [Open ''in/a/c.TIF'', BarUpdate 1]"
    by code_simp
  have 6: "\<not> os_path_exists example_env ''out''"
    by (simp add: example_env_def)
  show ?thesis
    using progress_advances_once_per_file [of example_env "''in''" "''out''" "(1000, 1000)" 1000
        "''in/a/b.tif''"] 1 6
    by (simp add: 2 3 4 5 numeral_3_eq_3 bar_events_def)
qed

subsection \<open>The output directory, and running again\<close>

lemma makedirs_calls_run:
  "makedirs_calls (fst (crop_tif_images_with_gdal e ind outd ws s)) =
     (if os_path_exists e outd then [] else [outd])"
proof (cases "os_path_exists e outd \<or> os_makedirs e outd = None")
  case True
  have app: "makedirs_calls (xs @ ys) = makedirs_calls xs @ makedirs_calls ys" for xs ys
    by (simp add: makedirs_calls_def)
  have "makedirs_calls (fst (crop_tif_images_with_gdal e ind outd ws s)) =
          makedirs_calls (if os_path_exists e outd then [] else [Makedirs outd]) @
          makedirs_calls (file_loop e ind outd ws s (discover e ind))"
    unfolding run_created [OF True] fst_conv app
    by (simp add: makedirs_calls_def)
  then show ?thesis
    by (simp add: makedirs_calls_file_loop) (simp add: makedirs_calls_def)
next
  case False
  then obtain msg where "\<not> os_path_exists e outd" "os_makedirs e outd = Some msg"
    by auto
  then show ?thesis
    by (simp add: run_not_created makedirs_calls_def)
qed

text \<open>
  C8. \<open>os.makedirs\<close> is called for the output directory exactly when the directory
  does not exist, and then it is the first call of the run, before the walk and before
  any file is opened. When that call raises, the exception leaves the function at
  once: the call is the only one made, so nothing is discovered, opened or cropped.
\<close>

theorem output_directory_first:
  "makedirs_calls (fst (crop_tif_images_with_gdal e ind outd ws s)) =
     (if os_path_exists e outd then [] else [outd]) \<and>
   (\<not> os_path_exists e outd \<longrightarrow>
      hd (fst (crop_tif_images_with_gdal e ind outd ws s)) = Makedirs outd) \<and>
   (\<not> os_path_exists e outd \<and> os_makedirs e outd = Some msg \<longrightarrow>
      crop_tif_images_with_gdal e ind outd ws s = ([Makedirs outd], Some msg))"
proof -
  have first: "hd (fst (crop_tif_images_with_gdal e ind outd ws s)) = Makedirs outd"
    if "\<not> os_path_exists e outd"
  proof (cases "os_makedirs e outd")
    case None
    then show ?thesis using that by (simp add: run_created)
  next
    case (Some m)
    then show ?thesis using that by (simp add: run_not_created)
  qed
  show ?thesis
    using first makedirs_calls_run [of e ind outd ws s] run_not_created [of e outd msg ind ws s]
    by blast
qed

theorem output_directory_first_witness:
  "crop_tif_images_with_gdal readonly_env ''in'' ''out'' (1000, 1000) 1000 =
     ([Makedirs ''out''], Some ''Permission denied'') \<and>
   makedirs_calls (fst (crop_tif_images_with_gdal readonly_env ''in'' ''out'' (1000, 1000) 1000)) =
     [''out'']"
proof -
  have 1: "\<not> os_path_exists readonly_env ''out''"
    by (simp add: readonly_env_def example_env_def)
  have 2: "os_makedirs readonly_env ''out'' = Some ''Permission denied''"
    by (simp add: readonly_env_def example_env_def)
  show ?thesis
    using output_directory_first [of readonly_env "''in''" "''out''" "(1000, 1000)" 1000
        "''Permission denied''"] 1 2
    by (simp add: makedirs_calls_def)
qed

lemma crop_row_cong:
  assumes "os_getcwd e1 = os_getcwd e2" and "gdal_Translate e1 = gdal_Translate e2"
  shows "crop_row e1 ind outd ws tif_path ds t lefts = crop_row e2 ind outd ws tif_path ds t lefts"
  using assms
  by (induction lefts) (simp_all add: Let_def cong: sum.case_cong option.case_cong)

lemma crop_rows_cong:
  assumes "os_getcwd e1 = os_getcwd e2" and "gdal_Translate e1 = gdal_Translate e2"
  shows "crop_rows e1 ind outd ws s tif_path ds tops = crop_rows e2 ind outd ws s tif_path ds tops"
  by (induction tops)
     (simp_all add: crop_row_cong [OF assms] cong: sum.case_cong option.case_cong prod.case_cong)

lemma process_file_cong:
  assumes "os_getcwd e1 = os_getcwd e2" and "gdal_Translate e1 = gdal_Translate e2"
    and "gdal_Open e1 tif_path = gdal_Open e2 tif_path"
  shows "process_file e1 ind outd ws s tif_path = process_file e2 ind outd ws s tif_path"
  using assms(3)
  by (simp add: process_file_def try_body_def crop_rows_cong [OF assms(1,2)]
        cong: sum.case_cong open_result.case_cong)

lemma file_loop_cong:
  assumes "os_getcwd e1 = os_getcwd e2" and "gdal_Translate e1 = gdal_Translate e2"
    and "\<forall>p \<in> set tif_paths. gdal_Open e1 p = gdal_Open e2 p"
  shows "file_loop e1 ind outd ws s tif_paths = file_loop e2 ind outd ws s tif_paths"
  using assms(3) by (induction tif_paths) (simp_all add: process_file_cong [OF assms(1,2)])

text \<open>Two runs with the same arguments in worlds that answer alike where the run
  looks make the same calls in the same order and end alike.\<close>

lemma rerun_same_calls:
  assumes "os_path_exists e1 outd = os_path_exists e2 outd"
    and "os_makedirs e1 outd = os_makedirs e2 outd"
    and "os_walk e1 ind = os_walk e2 ind"
    and "os_getcwd e1 = os_getcwd e2"
    and "\<forall>p \<in> set (discover e1 ind). gdal_Open e1 p = gdal_Open e2 p"
    and "gdal_Translate e1 = gdal_Translate e2"
  shows "crop_tif_images_with_gdal e1 ind outd ws s = crop_tif_images_with_gdal e2 ind outd ws s \<and>
         crop_requests (fst (crop_tif_images_with_gdal e1 ind outd ws s)) =
         crop_requests (fst (crop_tif_images_with_gdal e2 ind outd ws s))"
proof -
  have d: "discover e1 ind = discover e2 ind"
    using assms(3) by (simp add: discover_def)
  have "file_loop e1 ind outd ws s (discover e1 ind) = file_loop e2 ind outd ws s (discover e1 ind)"
    by (rule file_loop_cong [OF assms(4) assms(6) assms(5)])
  then have "crop_tif_images_with_gdal e1 ind outd ws s = crop_tif_images_with_gdal e2 ind outd ws s"
    using assms(1,2) d
    by (simp add: crop_tif_images_with_gdal_def Let_def cong: option.case_cong)
  then show ?thesis by simp
qed

subsection \<open>Decimal numbers and separators\<close>

lemma replace_sep_map:
  "replace_sep s = map (\<lambda>c. if c = CHR ''/'' then CHR ''_'' else c) s"
  by (induction s) (simp_all add: sep_def)

lemma sep_notin_replace_sep: "sep \<notin> set (replace_sep s)"
  by (induction s) (simp_all add: sep_def)

lemma replace_sep_append: "replace_sep (a @ b) = replace_sep a @ replace_sep b"
  by (induction a) simp_all

lemma replace_sep_id: "sep \<notin> set s \<Longrightarrow> replace_sep s = s"
  by (induction s) auto

lemma of_char_digit_char: "d < 10 \<Longrightarrow> (of_char (digit_char d) :: nat) = 48 + d"
  by (simp add: digit_char_def)

lemma digit_char_inj:
  assumes "a < 10" and "b < 10" and "digit_char a = digit_char b"
  shows "a = b"
proof -
  have "(of_char (digit_char a) :: nat) = of_char (digit_char b)"
    by (simp only: assms(3))
  then have "48 + a = 48 + b"
    by (simp only: of_char_digit_char [OF assms(1)] of_char_digit_char [OF assms(2)])
  then show ?thesis by simp
qed

lemma str_nat_nonempty: "str_nat n \<noteq> []"
  by (subst str_nat.simps) simp

lemma str_nat_chars:
  "c \<in> set (str_nat n) \<Longrightarrow> 48 \<le> (of_char c :: nat) \<and> (of_char c :: nat) \<le> 57"
proof (induction n rule: str_nat.induct)
  case (1 n)
  show ?case
  proof (cases "n < 10")
    case True
    with "1.prems" have "c = digit_char n" by (simp add: str_nat.simps [of n])
    with True show ?thesis by (simp add: of_char_digit_char)
  next
    case False
    with "1.prems" have "c \<in> set (str_nat (n div 10)) \<or> c = digit_char (n mod 10)"
      by (auto simp: str_nat.simps [of n])
    then show ?thesis
    proof
      assume "c \<in> set (str_nat (n div 10))"
      with False "1.IH" show ?thesis by simp
    next
      assume "c = digit_char (n mod 10)"
      then show ?thesis by (simp add: of_char_digit_char)
    qed
  qed
qed

lemma str_nat_last:
  "48 \<le> (of_char (last (str_nat n)) :: nat) \<and> (of_char (last (str_nat n)) :: nat) \<le> 57"
  using str_nat_chars [of "last (str_nat n)" n] str_nat_nonempty [of n] last_in_set by blast

lemma str_nat_inj: "str_nat n = str_nat m \<Longrightarrow> n = m"
proof (induction n arbitrary: m rule: str_nat.induct)
  case (1 n)
  show ?case
  proof (cases "n < 10")
    case True
    show ?thesis
    proof (cases "m < 10")
      case mt: True
      with True "1.prems" show ?thesis
        by (simp add: str_nat.simps [of n] str_nat.simps [of m] digit_char_inj)
    next
      case mf: False
      with True "1.prems" have "[digit_char n] = str_nat (m div 10) @ [digit_char (m mod 10)]"
        by (simp add: str_nat.simps [of n] str_nat.simps [of m])
      then have "str_nat (m div 10) = []" by simp
      then show ?thesis by (simp add: str_nat_nonempty)
    qed
  next
    case False
    show ?thesis
    proof (cases "m < 10")
      case mt: True
      with False "1.prems" have "str_nat (n div 10) @ [digit_char (n mod 10)] = [digit_char m]"
        by (simp add: str_nat.simps [of n] str_nat.simps [of m])
      then have "str_nat (n div 10) = []" by simp
      then show ?thesis by (simp add: str_nat_nonempty)
    next
      case mf: False
      with False "1.prems" have
        "str_nat (n div 10) @ [digit_char (n mod 10)] = str_nat (m div 10) @ [digit_char (m mod 10)]"
        by (simp add: str_nat.simps [of n] str_nat.simps [of m])
      then have a: "str_nat (n div 10) = str_nat (m div 10)"
        and b: "digit_char (n mod 10) = digit_char (m mod 10)"
        by simp_all
      from a False "1.IH" have "n div 10 = m div 10" by simp
      moreover from b have "n mod 10 = m mod 10" by (simp add: digit_char_inj)
      ultimately show ?thesis by (metis div_mult_mod_eq)
    qed
  qed
qed

lemma py_str_nonempty: "py_str i \<noteq> []"
  by (simp add: py_str_def str_nat_nonempty)

lemma py_str_chars:
  "c \<in> set (py_str i) \<Longrightarrow> c = CHR ''-'' \<or> (48 \<le> (of_char c :: nat) \<and> (of_char c :: nat) \<le> 57)"
  using str_nat_chars by (auto simp: py_str_def split: if_splits)

lemma py_str_no_underscore: "CHR ''_'' \<notin> set (py_str i)"
  using py_str_chars [of "CHR ''_''" i] by auto

lemma py_str_no_sep: "sep \<notin> set (py_str i)"
  using py_str_chars [of "CHR ''/''" i] by (auto simp: sep_def)

lemma py_str_last:
  "48 \<le> (of_char (last (py_str i)) :: nat) \<and> (of_char (last (py_str i)) :: nat) \<le> 57"
  using str_nat_last str_nat_nonempty by (simp add: py_str_def)

lemma py_str_inj: "py_str i = py_str j \<Longrightarrow> i = j"
proof -
  assume eq: "py_str i = py_str j"
  have hd_digit: "hd (str_nat n) \<noteq> CHR ''-''" for n
    using str_nat_chars [of "hd (str_nat n)" n] str_nat_nonempty [of n] hd_in_set by fastforce
  have neq: "CHR ''-'' # str_nat a \<noteq> str_nat b" for a b
    using hd_digit [of b] by (metis list.sel(1))
  show ?thesis
  proof (cases "i < 0")
    case True
    show ?thesis
    proof (cases "j < 0")
      case jt: True
      with True eq have "nat (- i) = nat (- j)" by (simp add: py_str_def str_nat_inj)
      with True jt show ?thesis by simp
    next
      case jf: False
      with True eq neq show ?thesis by (simp add: py_str_def)
    qed
  next
    case False
    show ?thesis
    proof (cases "j < 0")
      case jt: True
      with False eq neq [of "nat (- j)" "nat i"] show ?thesis by (simp add: py_str_def)
    next
      case jf: False
      with False eq have "nat i = nat j" by (simp add: py_str_def str_nat_inj)
      with False jf show ?thesis by simp
    qed
  qed
qed

subsection \<open>Extensions and joined paths\<close>

lemma rfind_cases:
  "(rfind xs c = - 1 \<and> c \<notin> set xs) \<or>
   (0 \<le> rfind xs c \<and> nat (rfind xs c) < length xs \<and> xs ! nat (rfind xs c) = c \<and>
    c \<notin> set (drop (Suc (nat (rfind xs c))) xs))"
proof (induction xs)
  case Nil
  show ?case by simp
next
  case (Cons x xs)
  show ?case
  proof (cases "0 \<le> rfind xs c")
    case True
    with Cons have "nat (rfind xs c) < length xs" "xs ! nat (rfind xs c) = c"
      "c \<notin> set (drop (Suc (nat (rfind xs c))) xs)"
      by auto
    moreover from True have "nat (rfind xs c + 1) = Suc (nat (rfind xs c))" by simp
    ultimately show ?thesis using True by (simp add: Let_def)
  next
    case False
    with Cons have "c \<notin> set xs" by auto
    with False show ?thesis by (simp add: Let_def)
  qed
qed

lemma rfind_ge: "- 1 \<le> rfind xs c"
  using rfind_cases [of xs c]
proof (elim disjE conjE)
  assume "rfind xs c = - 1"
  then show ?thesis by simp
next
  assume "0 \<le> rfind xs c"
  then show ?thesis by simp
qed

lemma rfind_found:
  assumes "0 \<le> rfind xs c"
  shows "nat (rfind xs c) < length xs" and "xs ! nat (rfind xs c) = c"
    and "c \<notin> set (drop (Suc (nat (rfind xs c))) xs)"
proof -
  from assms have "rfind xs c \<noteq> - 1" by simp
  with rfind_cases [of xs c]
  have "nat (rfind xs c) < length xs \<and> xs ! nat (rfind xs c) = c \<and>
        c \<notin> set (drop (Suc (nat (rfind xs c))) xs)"
    by blast
  then show "nat (rfind xs c) < length xs" and "xs ! nat (rfind xs c) = c"
    and "c \<notin> set (drop (Suc (nat (rfind xs c))) xs)"
    by blast+
qed

lemma rfind_after: "c \<notin> set (drop (nat (rfind xs c + 1)) xs)"
proof (cases "0 \<le> rfind xs c")
  case True
  then have "nat (rfind xs c + 1) = Suc (nat (rfind xs c))" by simp
  with rfind_found(3) [OF True] show ?thesis by simp
next
  case False
  with rfind_cases [of xs c] have "rfind xs c = - 1" "c \<notin> set xs" by blast+
  then show ?thesis by simp
qed

lemma splitext_cases:
  assumes "os_path_splitext p = (b, x)"
  shows "(b = p \<and> x = []) \<or>
         (rfind p sep < rfind p extsep \<and> b = take (nat (rfind p extsep)) p \<and>
          x = drop (nat (rfind p extsep)) p)"
proof (cases "rfind p sep < rfind p extsep \<and>
    list_ex (\<lambda>c. c \<noteq> extsep)
      (take (nat (rfind p extsep - (rfind p sep + 1))) (drop (nat (rfind p sep + 1)) p))")
  case True
  then have "os_path_splitext p = (take (nat (rfind p extsep)) p, drop (nat (rfind p extsep)) p)"
    unfolding os_path_splitext_def Let_def by (rule if_P)
  with assms True show ?thesis by simp
next
  case False
  then have "os_path_splitext p = (p, [])"
    unfolding os_path_splitext_def Let_def by (rule if_not_P)
  with assms show ?thesis by simp
qed

lemma splitext_parts:
  assumes "os_path_splitext p = (b, x)"
  shows "b @ x = p" and "sep \<notin> set x" and "x = [] \<or> (hd x = extsep \<and> extsep \<notin> set (tl x))"
proof -
  let ?si = "rfind p sep" and ?di = "rfind p extsep"
  from splitext_cases [OF assms] show "b @ x = p"
  proof
    assume "b = p \<and> x = []"
    then show ?thesis by simp
  next
    assume "?si < ?di \<and> b = take (nat ?di) p \<and> x = drop (nat ?di) p"
    then show ?thesis by simp
  qed
  from splitext_cases [OF assms] show "x = [] \<or> (hd x = extsep \<and> extsep \<notin> set (tl x))"
  proof
    assume "b = p \<and> x = []"
    then show ?thesis by simp
  next
    assume a: "?si < ?di \<and> b = take (nat ?di) p \<and> x = drop (nat ?di) p"
    with rfind_ge [of p sep] have d0: "0 \<le> ?di" by linarith
    from rfind_found(1) [OF d0] have "drop (nat ?di) p = p ! nat ?di # drop (Suc (nat ?di)) p"
      by (simp add: Cons_nth_drop_Suc)
    with a have "x = extsep # drop (Suc (nat ?di)) p"
      by (simp add: rfind_found(2) [OF d0])
    with rfind_found(3) [OF d0] show ?thesis by simp
  qed
  from splitext_cases [OF assms] show "sep \<notin> set x"
  proof
    assume "b = p \<and> x = []"
    then show ?thesis by simp
  next
    assume a: "?si < ?di \<and> b = take (nat ?di) p \<and> x = drop (nat ?di) p"
    then have "nat (?si + 1) \<le> nat ?di" by linarith
    then have "set (drop (nat ?di) p) \<subseteq> set (drop (nat (?si + 1)) p)"
      by (rule set_drop_subset_set_drop)
    with rfind_after [of sep p] a show ?thesis by blast
  qed
qed

lemma os_path_join_flat:
  assumes "sep \<notin> set name"
  shows "os_path_join outd name =
           (if outd = [] \<or> last outd = CHR ''/'' then outd @ name else outd @ ''/'' @ name)"
proof -
  have "\<not> py_startswith name [sep]"
    using assms by (cases name) (auto simp: py_startswith_def)
  moreover have "py_endswith outd [sep] \<longleftrightarrow> outd \<noteq> [] \<and> last outd = sep"
  proof (cases outd rule: rev_cases)
    case Nil
    then show ?thesis by (simp add: py_endswith_def)
  next
    case (snoc ys y)
    then show ?thesis by (simp add: py_endswith_def)
  qed
  ultimately show ?thesis
    by (auto simp: os_path_join_def sep_def)
qed

lemma split_last:
  assumes "c \<notin> set x" and "c \<notin> set y" and "a @ c # x = b @ c # y"
  shows "a = b \<and> x = y"
proof -
  have "length x = length y"
  proof (rule ccontr)
    assume ne: "length x \<noteq> length y"
    from assms(3) have r: "rev x @ c # rev a = rev y @ c # rev b"
      by (metis rev.simps(2) rev_append rev_rev_ident append.assoc append_Cons append_Nil)
    show False
    proof (cases "length x < length y")
      case True
      from r have "(rev x @ c # rev a) ! length x = (rev y @ c # rev b) ! length x" by simp
      with True have "c = rev y ! length x"
        by (simp add: nth_append)
      with True assms(2) show False
        by (metis length_rev nth_mem set_rev)
    next
      case False
      with ne have lt: "length y < length x" by simp
      from r have "(rev x @ c # rev a) ! length y = (rev y @ c # rev b) ! length y" by simp
      with lt have "rev x ! length y = c"
        by (simp add: nth_append)
      with lt assms(1) show False
        by (metis length_rev nth_mem set_rev)
    qed
  qed
  with assms(3) show ?thesis by simp
qed

subsection \<open>The name of a tile\<close>

lemma py_range_zero_iff: "(\<exists>m. py_range a b s = Inl m) \<longleftrightarrow> s = 0"
  by (simp add: py_range_def)

lemma crop_request_shape:
  assumes "r \<in> set (crop_requests (process_file e ind outd ws s tif_path))"
    and "os_path_relpath (os_getcwd e) tif_path ind = Inr rel"
  shows "\<exists>ds t l. gdal_Open e tif_path = OpenDataset ds \<and> r = crop_request outd ws rel ds t l"
proof (cases "gdal_Open e tif_path")
  case (OpenRaises m)
  then have "crop_requests (process_file e ind outd ws s tif_path) = []"
    unfolding crop_requests_process_file by (simp add: try_body_def crop_requests_def)
  with assms(1) show ?thesis by simp
next
  case OpenNone
  then have "crop_requests (process_file e ind outd ws s tif_path) = []"
    unfolding crop_requests_process_file by (simp add: try_body_def crop_requests_def)
  with assms(1) show ?thesis by simp
next
  case (OpenDataset ds)
  show ?thesis
  proof (cases "s = 0")
    case True
    then have "py_range 0 (RasterYSize ds - snd ws + 1) s = Inl ''range() arg 3 must not be zero''"
      by (simp add: py_range_def)
    with OpenDataset have "crop_requests (process_file e ind outd ws s tif_path) = []"
      unfolding crop_requests_process_file by (simp add: try_body_def crop_requests_def)
    with assms(1) show ?thesis by simp
  next
    case False
    then obtain tops lefts where
      tops: "py_range 0 (RasterYSize ds - snd ws + 1) s = Inr tops" and
      lefts: "py_range 0 (RasterXSize ds - fst ws + 1) s = Inr lefts"
      by (simp add: py_range_def)
    have "r \<in> set (crop_requests (fst (crop_rows e ind outd ws s tif_path ds tops)))"
      using assms(1)
      by (simp add: crop_requests_process_file crop_requests_try_body [OF OpenDataset tops])
    with set_mono_prefix [OF crop_rows_prefix [OF assms(2) lefts, of outd tops]]
    have "r \<in> set (planned_crops outd ws rel ds tops lefts)" by blast
    then obtain t l where "r = crop_request outd ws rel ds t l"
      unfolding mem_planned_crops by blast
    with OpenDataset show ?thesis by blast
  qed
qed

lemma sep_notin_name:
  assumes "os_path_splitext rel = (b, x)"
  shows "sep \<notin> set (replace_sep b @ ''_'' @ py_str l @ ''_'' @ py_str t @ ''_'' @ py_str r @
           ''_'' @ py_str bt @ x)"
  using splitext_parts(2) [OF assms] sep_notin_replace_sep [of b]
    py_str_no_sep [of l] py_str_no_sep [of t] py_str_no_sep [of r] py_str_no_sep [of bt]
  by (simp add: sep_def)

text \<open>The output path of a crop request, from the relative path that
  \<open>os.path.relpath\<close> gives and the two parts into which \<open>os.path.splitext\<close> cuts
  it.\<close>

lemma crop_request_name:
  assumes "os_path_relpath (os_getcwd e) tif_path ind = Inr relative_path"
    and "os_path_splitext relative_path = (base, ext)"
    and "(p, d, (left, top', ww, hh)) \<in>
           set (crop_requests (process_file e ind outd (w, h) s tif_path))"
  shows "let flat_base = map (\<lambda>c. if c = CHR ''/'' then CHR ''_'' else c) base;
             name = flat_base @ ''_'' @ py_str left @ ''_'' @ py_str top' @ ''_'' @
                    py_str (left + w) @ ''_'' @ py_str (top' + h) @ ext
         in base @ ext = relative_path \<and>
            CHR ''/'' \<notin> set name \<and>
            p = (if outd = [] \<or> last outd = CHR ''/'' then outd @ name else outd @ ''/'' @ name)"
proof -
  let ?name = "replace_sep base @ ''_'' @ py_str left @ ''_'' @ py_str top' @ ''_'' @
                 py_str (left + w) @ ''_'' @ py_str (top' + h) @ ext"
  from crop_request_shape [OF assms(3) assms(1)] obtain ds t l where
    "(p, d, (left, top', ww, hh)) = crop_request outd (w, h) relative_path ds t l"
    by blast
  then have "p = os_path_join outd (cropped_img_name relative_path left top' (left + w) (top' + h))"
    by (simp add: crop_request_def)
  then have p: "p = os_path_join outd ?name"
    by (simp add: cropped_img_name_def assms(2))
  have nosep: "sep \<notin> set ?name"
    by (rule sep_notin_name [OF assms(2)])
  have "p = (if outd = [] \<or> last outd = CHR ''/'' then outd @ ?name else outd @ ''/'' @ ?name)"
    unfolding p by (rule os_path_join_flat [OF nosep])
  moreover have "CHR ''/'' \<notin> set ?name" using nosep unfolding sep_def .
  moreover have "base @ ext = relative_path" by (rule splitext_parts(1) [OF assms(2)])
  ultimately show ?thesis
    unfolding Let_def replace_sep_map [symmetric] by blast
qed

subsection \<open>Paths that end in the supported extension\<close>

lemma lower_char_f:
  assumes "lower_char c = CHR ''f''"
  shows "(of_char c :: nat) = 70 \<or> (of_char c :: nat) = 102"
proof (cases "65 \<le> (of_char c :: nat) \<and> (of_char c :: nat) \<le> 90")
  case True
  then have "lower_char c = char_of ((of_char c :: nat) + 32)"
    unfolding lower_char_def by (rule if_P)
  with assms have "char_of ((of_char c :: nat) + 32) = CHR ''f''"
    by (simp only:)
  then have "(of_char (char_of ((of_char c :: nat) + 32) :: char) :: nat) = of_char (CHR ''f'')"
    by (simp only:)
  moreover have "(of_char (char_of ((of_char c :: nat) + 32) :: char) :: nat) = of_char c + 32"
    using True by (simp only: of_char_of) simp
  moreover have "(of_char (CHR ''f'') :: nat) = 102" by simp
  ultimately show ?thesis by linarith
next
  case False
  then have "lower_char c = c"
    unfolding lower_char_def by (rule if_not_P)
  with assms have "c = CHR ''f''" by (simp only:)
  then show ?thesis by simp
qed

lemma py_endswith_last:
  assumes "py_endswith s suf" and "suf \<noteq> []"
  shows "s \<noteq> []" and "last s = last suf"
proof -
  from assms have len: "length suf \<le> length s" and d: "drop (length s - length suf) s = suf"
    by (simp_all add: py_endswith_def)
  from len assms(2) show ne: "s \<noteq> []" by auto
  from len assms(2) ne have "length s - length suf < length s" by (cases suf) auto
  then have "last (drop (length s - length suf) s) = last s" by (rule last_drop)
  with d show "last s = last suf" by simp
qed

lemma tif_last:
  assumes "py_endswith (py_lower rel) (CHR ''.'' # supported_format)"
  shows "rel \<noteq> []" and "(of_char (last rel) :: nat) = 70 \<or> (of_char (last rel) :: nat) = 102"
proof -
  from py_endswith_last(1) [OF assms] show ne: "rel \<noteq> []"
    by (simp add: py_lower_def)
  from py_endswith_last(2) [OF assms] have "last (py_lower rel) = CHR ''f''"
    by (simp add: supported_format_def)
  with ne have "lower_char (last rel) = CHR ''f''"
    by (simp add: py_lower_def last_map)
  then show "(of_char (last rel) :: nat) = 70 \<or> (of_char (last rel) :: nat) = 102"
    by (rule lower_char_f)
qed

subsection \<open>Reading a name back\<close>

lemma body_inj:
  assumes "CHR ''_'' \<notin> set L1" "CHR ''_'' \<notin> set T1" "CHR ''_'' \<notin> set R1" "CHR ''_'' \<notin> set B1"
    and "CHR ''_'' \<notin> set L2" "CHR ''_'' \<notin> set T2" "CHR ''_'' \<notin> set R2" "CHR ''_'' \<notin> set B2"
    and "fb1 @ ''_'' @ L1 @ ''_'' @ T1 @ ''_'' @ R1 @ ''_'' @ B1 =
         fb2 @ ''_'' @ L2 @ ''_'' @ T2 @ ''_'' @ R2 @ ''_'' @ B2"
  shows "fb1 = fb2 \<and> L1 = L2 \<and> T1 = T2 \<and> R1 = R2 \<and> B1 = B2"
proof -
  have 1: "(fb1 @ ''_'' @ L1 @ ''_'' @ T1 @ ''_'' @ R1) @ CHR ''_'' # B1 =
           (fb2 @ ''_'' @ L2 @ ''_'' @ T2 @ ''_'' @ R2) @ CHR ''_'' # B2"
    using assms(9) by simp
  from split_last [OF assms(4) assms(8) 1]
  have b: "B1 = B2" and 2: "(fb1 @ ''_'' @ L1 @ ''_'' @ T1) @ CHR ''_'' # R1 =
           (fb2 @ ''_'' @ L2 @ ''_'' @ T2) @ CHR ''_'' # R2"
    by simp_all
  from split_last [OF assms(3) assms(7) 2]
  have r: "R1 = R2" and 3: "(fb1 @ ''_'' @ L1) @ CHR ''_'' # T1 = (fb2 @ ''_'' @ L2) @ CHR ''_'' # T2"
    by simp_all
  from split_last [OF assms(2) assms(6) 3]
  have t: "T1 = T2" and 4: "fb1 @ CHR ''_'' # L1 = fb2 @ CHR ''_'' # L2"
    by simp_all
  from split_last [OF assms(1) assms(5) 4] b r t show ?thesis by simp
qed

lemma last_body_digit:
  "48 \<le> (of_char (last (fb @ ''_'' @ L @ ''_'' @ T @ ''_'' @ R @ ''_'' @ py_str i)) :: nat) \<and>
   (of_char (last (fb @ ''_'' @ L @ ''_'' @ T @ ''_'' @ R @ ''_'' @ py_str i)) :: nat) \<le> 57"
proof -
  have "last (fb @ ''_'' @ L @ ''_'' @ T @ ''_'' @ R @ ''_'' @ py_str i) = last (py_str i)"
    using py_str_nonempty [of i] by simp
  then show ?thesis using py_str_last [of i] by simp
qed

lemma name_inj:
  assumes "py_endswith (py_lower rel1) (CHR ''.'' # supported_format)"
    and "py_endswith (py_lower rel2) (CHR ''.'' # supported_format)"
    and "cropped_img_name rel1 l1 t1 r1 b1 = cropped_img_name rel2 l2 t2 r2 b2"
  shows "replace_sep rel1 = replace_sep rel2 \<and> l1 = l2 \<and> t1 = t2"
proof -
  obtain base1 x1 where s1: "os_path_splitext rel1 = (base1, x1)"
    by (cases "os_path_splitext rel1")
  obtain base2 x2 where s2: "os_path_splitext rel2 = (base2, x2)"
    by (cases "os_path_splitext rel2")
  let ?body1 = "replace_sep base1 @ ''_'' @ py_str l1 @ ''_'' @ py_str t1 @ ''_'' @ py_str r1 @
                  ''_'' @ py_str b1"
  let ?body2 = "replace_sep base2 @ ''_'' @ py_str l2 @ ''_'' @ py_str t2 @ ''_'' @ py_str r2 @
                  ''_'' @ py_str b2"
  have eq: "?body1 @ x1 = ?body2 @ x2"
    using assms(3) by (simp add: cropped_img_name_def s1 s2)
  have ne1: "?body1 \<noteq> []" and ne2: "?body2 \<noteq> []" by simp_all
  have nd1: "\<not> (48 \<le> (of_char (last x1) :: nat) \<and> (of_char (last x1) :: nat) \<le> 57)"
    if "x1 \<noteq> []"
  proof -
    from that splitext_parts(1) [OF s1] have "last x1 = last rel1" by (metis last_appendR)
    with tif_last(2) [OF assms(1)] show ?thesis by auto
  qed
  have nd2: "\<not> (48 \<le> (of_char (last x2) :: nat) \<and> (of_char (last x2) :: nat) \<le> 57)"
    if "x2 \<noteq> []"
  proof -
    from that splitext_parts(1) [OF s2] have "last x2 = last rel2" by (metis last_appendR)
    with tif_last(2) [OF assms(2)] show ?thesis by auto
  qed
  have both: "?body1 = ?body2 \<and> x1 = x2"
  proof (cases "x1 = []")
    case e1: True
    show ?thesis
    proof (cases "x2 = []")
      case True
      with e1 eq show ?thesis by simp
    next
      case False
      from e1 eq have "last ?body1 = last (?body2 @ x2)" by simp
      with False have "last ?body1 = last x2" by simp
      with last_body_digit [of "replace_sep base1" "py_str l1" "py_str t1" "py_str r1" b1]
        nd2 [OF False]
      show ?thesis by simp
    qed
  next
    case n1: False
    show ?thesis
    proof (cases "x2 = []")
      case True
      with eq have "last ?body2 = last (?body1 @ x1)" by simp
      with n1 have "last ?body2 = last x1" by simp
      with last_body_digit [of "replace_sep base2" "py_str l2" "py_str t2" "py_str r2" b2]
        nd1 [OF n1]
      show ?thesis by simp
    next
      case False
      from n1 splitext_parts(3) [OF s1] have x1: "x1 = extsep # tl x1" "extsep \<notin> set (tl x1)"
        by (cases x1; simp)+
      from False splitext_parts(3) [OF s2] have x2: "x2 = extsep # tl x2" "extsep \<notin> set (tl x2)"
        by (cases x2; simp)+
      from eq x1(1) x2(1) have "?body1 @ extsep # tl x1 = ?body2 @ extsep # tl x2" by simp
      from split_last [OF x1(2) x2(2) this] x1(1) x2(1) show ?thesis by metis
    qed
  qed
  from body_inj [OF py_str_no_underscore py_str_no_underscore py_str_no_underscore
      py_str_no_underscore py_str_no_underscore py_str_no_underscore py_str_no_underscore
      py_str_no_underscore conjunct1 [OF both]]
  have fb: "replace_sep base1 = replace_sep base2" and l: "py_str l1 = py_str l2"
    and t: "py_str t1 = py_str t2"
    by simp_all
  have "replace_sep rel1 = replace_sep base1 @ x1"
    using splitext_parts(1) [OF s1] splitext_parts(2) [OF s1]
    by (metis replace_sep_append replace_sep_id)
  moreover have "replace_sep rel2 = replace_sep base2 @ x2"
    using splitext_parts(1) [OF s2] splitext_parts(2) [OF s2]
    by (metis replace_sep_append replace_sep_id)
  ultimately have "replace_sep rel1 = replace_sep rel2"
    using fb both by simp
  with py_str_inj [OF l] py_str_inj [OF t] show ?thesis by simp
qed

subsection \<open>Names do not collide\<close>

lemma sep_notin_cropped_img_name: "sep \<notin> set (cropped_img_name rel l t r b)"
proof -
  obtain base x where s: "os_path_splitext rel = (base, x)"
    by (cases "os_path_splitext rel")
  from sep_notin_name [OF s, of l t r b] show ?thesis
    by (simp add: cropped_img_name_def s)
qed

lemma os_path_join_inj:
  assumes "sep \<notin> set n1" and "sep \<notin> set n2" and "os_path_join outd n1 = os_path_join outd n2"
  shows "n1 = n2"
  using assms(3) unfolding os_path_join_flat [OF assms(1)] os_path_join_flat [OF assms(2)]
  by (simp split: if_splits)

text \<open>Two relative paths that differ only in a separator against an underscore give
  the same name: the flattening is what the uniqueness of names rests on.\<close>

lemma flattening_collision:
  "cropped_img_name ''a/b.tif'' 0 0 1000 1000 = cropped_img_name ''a_b.tif'' 0 0 1000 1000"
  by code_simp

text \<open>
  C6. Take two pairs of a source file, given by its path relative to the input
  directory and ending in the supported extension as discovered files do, and a window
  origin, in a run with window size \<open>(w, h)\<close>. When the pairs differ, and the two files
  are the same or have different relative paths after the separators are flattened,
  the two names differ, and so do the two output paths.
\<close>

theorem output_names_distinct:
  assumes "py_endswith (py_lower rel1) (CHR ''.'' # supported_format)"
    and "py_endswith (py_lower rel2) (CHR ''.'' # supported_format)"
    and "(rel1, left1, top1) \<noteq> (rel2, left2, top2)"
    and "rel1 = rel2 \<or> replace_sep rel1 \<noteq> replace_sep rel2"
  shows "cropped_img_name rel1 left1 top1 (left1 + w) (top1 + h) \<noteq>
           cropped_img_name rel2 left2 top2 (left2 + w) (top2 + h) \<and>
         fst (crop_request outd (w, h) rel1 ds1 top1 left1) \<noteq>
           fst (crop_request outd (w, h) rel2 ds2 top2 left2)"
proof -
  have names: "cropped_img_name rel1 left1 top1 (left1 + w) (top1 + h) \<noteq>
                 cropped_img_name rel2 left2 top2 (left2 + w) (top2 + h)"
  proof
    assume "cropped_img_name rel1 left1 top1 (left1 + w) (top1 + h) =
              cropped_img_name rel2 left2 top2 (left2 + w) (top2 + h)"
    from name_inj [OF assms(1) assms(2) this]
    have "replace_sep rel1 = replace_sep rel2" "left1 = left2" "top1 = top2" by simp_all
    with assms(3) assms(4) show False by auto
  qed
  have "fst (crop_request outd (w, h) rel1 ds1 top1 left1) \<noteq>
          fst (crop_request outd (w, h) rel2 ds2 top2 left2)"
  proof
    assume "fst (crop_request outd (w, h) rel1 ds1 top1 left1) =
              fst (crop_request outd (w, h) rel2 ds2 top2 left2)"
    then have "os_path_join outd (cropped_img_name rel1 left1 top1 (left1 + w) (top1 + h)) =
                 os_path_join outd (cropped_img_name rel2 left2 top2 (left2 + w) (top2 + h))"
      by (simp add: crop_request_def)
    from os_path_join_inj [OF sep_notin_cropped_img_name sep_notin_cropped_img_name this] names
    show False by simp
  qed
  with names show ?thesis by simp
qed

theorem output_names_distinct_witness:
  "cropped_img_name ''a/b.tif'' 1000 0 (1000 + 1000) (0 + 1000) \<noteq>
     cropped_img_name ''a/c.tif'' 1000 0 (1000 + 1000) (0 + 1000) \<and>
   fst (crop_request ''out'' (1000, 1000) ''a/b.tif'' b_tif 0 1000) \<noteq>
     fst (crop_request ''out'' (1000, 1000) ''a/c.tif'' b_tif 0 1000)"
proof -
  have 1: "py_endswith (py_lower ''a/b.tif'') (CHR ''.'' # supported_format)"
    by code_simp
  have 2: "py_endswith (py_lower ''a/c.tif'') (CHR ''.'' # supported_format)"
    by code_simp
  have 3: "(''a/b.tif'', 1000::int, 0::int) \<noteq> (''a/c.tif'', 1000, 0)"
    by simp
  have 4: "''a/b.tif'' = ''a/c.tif'' \<or> replace_sep ''a/b.tif'' \<noteq> replace_sep ''a/c.tif''"
    by (simp add: sep_def)
  show ?thesis
    using output_names_distinct [OF 1 2 3 4, of 1000 1000 "''out''" b_tif b_tif] by simp
qed

subsection \<open>The library functions on examples\<close>

text \<open>The items of a range with a positive step are the multiples of the step from
  \<open>0\<close> up to, and not including, the stop: the loop runs \<open>while top + h \<le> H\<close>.\<close>

lemma py_range_items:
  assumes "0 < s"
  shows "\<exists>xs. py_range 0 stop s = Inr xs \<and> set xs = {x. 0 \<le> x \<and> x < stop \<and> s dvd x}"
proof -
  let ?xs = "map (\<lambda>k. int k * s) [0..<range_len 0 stop s]"
  have "set ?xs = {x. 0 \<le> x \<and> x < stop \<and> s dvd x}"
  proof (intro set_eqI iffI)
    fix x
    assume "x \<in> set ?xs"
    then obtain k where k: "k < range_len 0 stop s" "x = int k * s" by auto
    from range_item_bounds [OF assms, of k "stop - 1"] k
    show "x \<in> {x. 0 \<le> x \<and> x < stop \<and> s dvd x}" by simp
  next
    fix x
    assume "x \<in> {x. 0 \<le> x \<and> x < stop \<and> s dvd x}"
    then have x: "0 \<le> x" "x < stop" "s dvd x" by simp_all
    from x(3) obtain q where q: "x = q * s" by (metis dvd_def mult.commute)
    with x(1) assms have q0: "0 \<le> q" by (simp add: zero_le_mult_iff)
    have "q = x div s" using q assms by simp
    also have "\<dots> \<le> (stop - 1) div s" using x(2) assms by (intro zdiv_mono1) simp_all
    finally have "q \<le> (stop - 1) div s" .
    with q0 x(1) x(2) have "nat q < range_len 0 stop s"
      by (simp add: range_len_def assms)
    then have "nat q \<in> set [0..<range_len 0 stop s]" by simp
    then have "int (nat q) * s \<in> set ?xs" by (simp only: set_map) (rule imageI)
    moreover have "x = int (nat q) * s" using q q0 by simp
    ultimately show "x \<in> set ?xs" by simp
  qed
  with py_range_pos [OF assms, of stop] show ?thesis by simp
qed

text \<open>The \<open>os.path\<close> functions on the inputs of the library's documentation and on
  the corner cases of the naming.\<close>

lemma os_path_examples:
  "os_path_join ''/home/user/out/'' ''a_b_0_0_1000_1000.tif'' =
     ''/home/user/out/a_b_0_0_1000_1000.tif''"
  "os_path_join ''out'' ''/abs'' = ''/abs''"
  "os_path_splitext ''a/b.tif'' = (''a/b'', ''.tif'')"
  "os_path_splitext ''a.b/c'' = (''a.b/c'', '''')"
  "os_path_splitext ''dir/.tif'' = (''dir/.tif'', '''')"
  "os_path_splitext ''x.tar.TIF'' = (''x.tar'', ''.TIF'')"
  "os_path_normpath ''A//B/./C/../D'' = ''A/B/D''"
  "os_path_normpath ''//a/../../b/'' = ''//b''"
  "os_path_relpath ''/home/user'' ''/data/in/a/b.tif'' ''/data/in/'' = Inr ''a/b.tif''"
  "os_path_relpath ''/home/user'' ''in/b.tif'' ''in'' = Inr ''b.tif''"
  "os_path_relpath ''/home/user'' ''b.tif'' ''../q'' = Inr ''../user/b.tif''"
  "os_path_relpath ''/home/user'' '''' ''in'' = Inl ''no path specified''"
  by code_simp+

lemma py_examples:
  "py_range 0 501 1000 = Inr [0]"
  "py_range 0 1001 1000 = Inr [0, 1000]"
  "py_range 0 (- 499) 1000 = Inr []"
  "py_range 0 (- 5) (- 2) = Inr [0, - 2, - 4]"
  "py_range 0 10 0 = Inl ''range() arg 3 must not be zero''"
  "py_str 2000 = ''2000''"
  "py_str 0 = ''0''"
  "py_str (- 17) = ''-17''"
  "py_lower ''Scene.TIF'' = ''scene.tif''"
  by code_simp+

subsection \<open>Components of a path\<close>

lemma split_sep_nonempty: "split_sep s \<noteq> []"
  by (induction s) (auto split: list.splits)

lemma split_sep_nosep: "sep \<notin> set b \<Longrightarrow> split_sep b = [b]"
  by (induction b) auto

lemma split_sep_append: "split_sep (a @ sep # b) = split_sep a @ split_sep b"
proof (induction a)
  case Nil
  show ?case by simp
next
  case (Cons c a)
  obtain x xs where x: "split_sep a = x # xs"
    using split_sep_nonempty [of a] by (cases "split_sep a") auto
  with Cons show ?case by auto
qed

lemma split_sep_elems: "c \<in> set (split_sep s) \<Longrightarrow> sep \<notin> set c"
proof (induction s arbitrary: c)
  case Nil
  then show ?case by simp
next
  case (Cons a s)
  obtain x xs where x: "split_sep s = x # xs"
    using split_sep_nonempty [of s] by (cases "split_sep s") auto
  show ?case
  proof (cases "a = sep")
    case True
    with Cons show ?thesis by auto
  next
    case False
    with Cons.prems x have "c = a # x \<or> c \<in> set xs" by auto
    then show ?thesis
    proof
      assume "c = a # x"
      moreover have "sep \<notin> set x" using Cons.IH [of x] x by simp
      ultimately show ?thesis using False by auto
    next
      assume "c \<in> set xs"
      then show ?thesis using Cons.IH [of c] x by simp
    qed
  qed
qed

lemma comps_join:
  assumes "entry_name n"
  shows "filter (\<lambda>x. x \<noteq> []) (split_sep (os_path_join a n)) =
           filter (\<lambda>x. x \<noteq> []) (split_sep a) @ [n]"
proof -
  from assms have n: "n \<noteq> []" "sep \<notin> set n" by (simp_all add: entry_name_def)
  then have ns: "\<not> py_startswith n [sep]"
    by (cases n) (auto simp: py_startswith_def)
  show ?thesis
  proof (cases "a = []")
    case True
    with ns n show ?thesis by (simp add: os_path_join_def split_sep_nosep)
  next
    case False
    then obtain a' l where a: "a = a' @ [l]" by (cases a rule: rev_cases) auto
    show ?thesis
    proof (cases "l = sep")
      case True
      with a have "py_endswith a [sep]" by (simp add: py_endswith_def)
      with ns have "os_path_join a n = a' @ sep # n"
        using a True by (simp add: os_path_join_def)
      moreover have "split_sep a = split_sep a' @ [[]]"
        using a True split_sep_append [of a' "[]"] by simp
      ultimately show ?thesis using n by (simp add: split_sep_append split_sep_nosep)
    next
      case l: False
      with a have "\<not> py_endswith a [sep]" by (simp add: py_endswith_def)
      with ns False have "os_path_join a n = a @ sep # n"
        by (simp add: os_path_join_def)
      then show ?thesis using n by (simp add: split_sep_append split_sep_nosep)
    qed
  qed
qed

lemma norm_comps_append:
  "norm_comps ini (cs @ ds) acc = norm_comps ini ds (norm_comps ini cs acc)"
  by (induction cs arbitrary: acc) simp_all

lemma norm_comps_filter:
  "norm_comps ini (filter (\<lambda>x. x \<noteq> []) cs) acc = norm_comps ini cs acc"
  by (induction cs arbitrary: acc) simp_all

lemma norm_comps_entries:
  "\<forall>n \<in> set ns. entry_name n \<Longrightarrow> norm_comps ini ns acc = acc @ ns"
  by (induction ns arbitrary: acc) (auto simp: entry_name_def)

lemma norm_comps_elems:
  assumes "\<forall>c \<in> set cs. sep \<notin> set c" and "\<forall>c \<in> set acc. c \<noteq> [] \<and> sep \<notin> set c"
  shows "\<forall>c \<in> set (norm_comps ini cs acc). c \<noteq> [] \<and> sep \<notin> set c"
  using assms
proof (induction cs arbitrary: acc)
  case Nil
  then show ?case by simp
next
  case (Cons a cs)
  have bl: "\<forall>c \<in> set (butlast acc). c \<noteq> [] \<and> sep \<notin> set c"
    using Cons.prems(2) by (meson in_set_butlastD)
  have ap: "\<forall>c \<in> set (acc @ [a]). c \<noteq> [] \<and> sep \<notin> set c" if "a \<noteq> []"
    using Cons.prems that by simp
  from Cons.prems(1) have cs: "\<forall>c \<in> set cs. sep \<notin> set c" by simp
  show ?case
    using Cons.IH [OF cs Cons.prems(2)] Cons.IH [OF cs bl] Cons.IH [OF cs ap]
    by (simp del: butlast.simps)
qed

subsection \<open>Joining names to a directory\<close>

lemma split_sep_leading: "split_sep (replicate k sep @ s) = replicate k [] @ split_sep s"
  by (induction k) simp_all

lemma split_sep_join:
  assumes "\<forall>c \<in> set cs. c \<noteq> [] \<and> sep \<notin> set c"
  shows "filter (\<lambda>x. x \<noteq> []) (split_sep (sep_join cs)) = cs"
  using assms
proof (induction cs rule: sep_join.induct)
  case 1
  show ?case by simp
next
  case (2 x)
  then show ?case by (simp add: split_sep_nosep)
next
  case (3 x y ys)
  then show ?case by (simp add: split_sep_append split_sep_nosep)
qed

lemma comps_normpath:
  assumes "py_startswith path [sep]"
  shows "filter (\<lambda>x. x \<noteq> []) (split_sep (os_path_normpath path)) =
           norm_comps (initial_slashes path) (split_sep path) []"
proof -
  let ?ini = "initial_slashes path"
  let ?N = "norm_comps ?ini (split_sep path) []"
  from assms have ne: "path \<noteq> []" by (auto simp: py_startswith_def)
  from assms have ini: "0 < ?ini" by (simp add: initial_slashes_def)
  then have "replicate ?ini sep @ sep_join ?N \<noteq> []" by simp
  with ne ini have np: "os_path_normpath path = replicate ?ini sep @ sep_join ?N"
    by (simp add: os_path_normpath_def Let_def)
  have el: "\<forall>c \<in> set ?N. c \<noteq> [] \<and> sep \<notin> set c"
    by (rule norm_comps_elems) (simp_all add: split_sep_elems)
  have "filter (\<lambda>x. x \<noteq> []) (replicate ?ini [] @ split_sep (sep_join ?N)) =
          filter (\<lambda>x. x \<noteq> []) (split_sep (sep_join ?N))"
    by simp
  with split_sep_join [OF el] show ?thesis
    by (simp only: np split_sep_leading)
qed

lemma join_entry:
  assumes "entry_name n" and "a \<noteq> []"
  shows "os_path_join a n = (if last a = sep then a @ n else a @ sep # n)"
proof -
  from assms(1) have "\<not> py_startswith n [sep]"
    by (cases n) (auto simp: py_startswith_def entry_name_def)
  moreover from assms(2) have "py_endswith a [sep] \<longleftrightarrow> last a = sep"
    by (cases a rule: rev_cases) (simp_all add: py_endswith_def)
  ultimately show ?thesis using assms(2) by (simp add: os_path_join_def)
qed

lemma initial_slashes_append_other:
  assumes "a \<noteq> []" and "m \<noteq> sep"
  shows "initial_slashes (a @ m # ms) = initial_slashes a"
proof (cases a)
  case Nil
  with assms(1) show ?thesis by simp
next
  case c1: (Cons x xs)
  show ?thesis
  proof (cases xs)
    case Nil
    with c1 assms(2) show ?thesis
      by (simp add: initial_slashes_def py_startswith_def)
  next
    case c2: (Cons y ys)
    show ?thesis
    proof (cases ys)
      case Nil
      with c1 c2 assms(2) show ?thesis
        by (simp add: initial_slashes_def py_startswith_def)
    next
      case c3: (Cons z zs)
      with c1 c2 show ?thesis
        by (simp add: initial_slashes_def py_startswith_def)
    qed
  qed
qed

lemma initial_slashes_append_sep:
  assumes "a \<noteq> []" and "last a \<noteq> sep"
  shows "initial_slashes (a @ z) = initial_slashes a"
proof (cases a)
  case Nil
  with assms(1) show ?thesis by simp
next
  case c1: (Cons x xs)
  show ?thesis
  proof (cases xs)
    case Nil
    with c1 assms(2) show ?thesis
      by (simp add: initial_slashes_def py_startswith_def)
  next
    case c2: (Cons y ys)
    show ?thesis
    proof (cases ys)
      case Nil
      with c1 c2 assms(2) show ?thesis
        by (simp add: initial_slashes_def py_startswith_def)
    next
      case c3: (Cons z zs)
      with c1 c2 show ?thesis
        by (simp add: initial_slashes_def py_startswith_def)
    qed
  qed
qed

lemma initial_slashes_join:
  assumes "entry_name n" and "a \<noteq> []"
  shows "initial_slashes (os_path_join a n) = initial_slashes a"
proof -
  from assms(1) obtain m ms where n: "n = m # ms" "m \<noteq> sep"
    by (cases n) (auto simp: entry_name_def)
  show ?thesis
  proof (cases "last a = sep")
    case True
    then have "os_path_join a n = a @ n"
      by (simp add: join_entry [OF assms])
    with n(1) have "os_path_join a n = a @ m # ms" by simp
    then show ?thesis
      by (simp only: initial_slashes_append_other [OF assms(2) n(2)])
  next
    case False
    then have "os_path_join a n = a @ sep # n"
      by (simp add: join_entry [OF assms])
    then show ?thesis
      by (simp only: initial_slashes_append_sep [OF assms(2) False])
  qed
qed

lemma startswith_join:
  assumes "entry_name n" and "a \<noteq> []"
  shows "py_startswith (os_path_join a n) [sep] = py_startswith a [sep]"
proof -
  have "py_startswith (if last a = sep then a @ n else a @ sep # n) [sep] = py_startswith a [sep]"
    using assms(2) by (cases a) (simp_all add: py_startswith_def)
  then show ?thesis by (simp only: join_entry [OF assms])
qed

lemma join_nonempty: "entry_name n \<Longrightarrow> os_path_join a n \<noteq> []"
  by (simp add: os_path_join_nonempty entry_name_def)

lemma join_assoc:
  assumes "entry_name n" and "t \<noteq> []" and "\<not> py_startswith t [sep]"
  shows "os_path_join cwd (os_path_join t n) = os_path_join (os_path_join cwd t) n"
proof -
  have jt: "os_path_join cwd t = (if cwd = [] \<or> py_endswith cwd [sep] then cwd @ t else cwd @ sep # t)"
    using assms(3) by (simp add: os_path_join_def)
  have ns: "\<not> py_startswith (os_path_join t n) [sep]"
    using assms(3) by (simp add: startswith_join [OF assms(1,2)])
  have jn: "os_path_join cwd (os_path_join t n) =
              (if cwd = [] \<or> py_endswith cwd [sep] then cwd @ os_path_join t n
               else cwd @ sep # os_path_join t n)"
    using ns by (simp add: os_path_join_def)
  have ne: "os_path_join cwd t \<noteq> []" using assms(2) by (simp add: os_path_join_nonempty)
  have lst: "last (os_path_join cwd t) = last t"
    using assms(2) by (simp add: jt)
  show ?thesis
    unfolding jn join_entry [OF assms(1) ne] lst
    by (simp add: jt join_entry [OF assms(1,2)])
qed

subsection \<open>The relative path of a file under the input directory\<close>

lemma walk_path:
  assumes "\<forall>n \<in> set ns. entry_name n" and "a \<noteq> []"
  shows "foldl os_path_join a ns \<noteq> [] \<and>
         py_startswith (foldl os_path_join a ns) [sep] = py_startswith a [sep] \<and>
         initial_slashes (foldl os_path_join a ns) = initial_slashes a \<and>
         filter (\<lambda>x. x \<noteq> []) (split_sep (foldl os_path_join a ns)) =
           filter (\<lambda>x. x \<noteq> []) (split_sep a) @ ns \<and>
         (\<not> py_startswith a [sep] \<longrightarrow>
            os_path_join cwd (foldl os_path_join a ns) =
            foldl os_path_join (os_path_join cwd a) ns)"
  using assms(1)
proof (induction ns rule: rev_induct)
  case Nil
  with assms(2) show ?case by simp
next
  case (snoc n ns)
  let ?T = "foldl os_path_join a ns"
  from snoc.prems have n: "entry_name n" and ns: "\<forall>n \<in> set ns. entry_name n" by simp_all
  from snoc.IH [OF ns] have
    ne: "?T \<noteq> []" and
    sw: "py_startswith ?T [sep] = py_startswith a [sep]" and
    ini: "initial_slashes ?T = initial_slashes a" and
    cs: "filter (\<lambda>x. x \<noteq> []) (split_sep ?T) = filter (\<lambda>x. x \<noteq> []) (split_sep a) @ ns" and
    jc: "\<not> py_startswith a [sep] \<longrightarrow> os_path_join cwd ?T = foldl os_path_join (os_path_join cwd a) ns"
    by blast+
  have 1: "foldl os_path_join a (ns @ [n]) = os_path_join ?T n" by simp
  have 2: "os_path_join ?T n \<noteq> []" by (rule join_nonempty [OF n])
  have 3: "py_startswith (os_path_join ?T n) [sep] = py_startswith a [sep]"
    by (simp only: startswith_join [OF n ne] sw)
  have 4: "initial_slashes (os_path_join ?T n) = initial_slashes a"
    by (simp only: initial_slashes_join [OF n ne] ini)
  have 5: "filter (\<lambda>x. x \<noteq> []) (split_sep (os_path_join ?T n)) =
             filter (\<lambda>x. x \<noteq> []) (split_sep a) @ ns @ [n]"
    by (simp only: comps_join [OF n] cs append_assoc)
  have 6: "os_path_join cwd (os_path_join ?T n) =
             foldl os_path_join (os_path_join cwd a) (ns @ [n])"
    if "\<not> py_startswith a [sep]"
  proof -
    from that sw have "\<not> py_startswith ?T [sep]" by simp
    from join_assoc [OF n ne this, of cwd] jc that show ?thesis by simp
  qed
  from 2 3 4 5 6 show ?case unfolding 1 by blast
qed

lemma longest_common_prefix_append: "longest_common_prefix xs (xs @ ys) = xs"
  by (induction xs) simp_all

text \<open>The path of a file that \<open>os.walk\<close> finds under the input directory, taken
  relative to that directory, is the names below the directory joined by separators.\<close>

lemma relpath_walk:
  assumes "py_startswith cwd [sep]" and "ind \<noteq> []"
    and "\<forall>n \<in> set ns. entry_name n" and "ns \<noteq> []"
  shows "os_path_relpath cwd (foldl os_path_join ind ns) ind = Inr (sep_join ns)"
proof -
  define T where "T = foldl os_path_join ind ns"
  define A where "A = (if py_startswith ind [sep] then ind else os_path_join cwd ind)"
  define B where "B = (if py_startswith T [sep] then T else os_path_join cwd T)"
  note w = walk_path [OF assms(3) assms(2), of cwd, folded T_def]
  have A_ne: "A \<noteq> []" using assms(2) by (simp add: A_def os_path_join_nonempty)
  have A_abs: "py_startswith A [sep]"
  proof (cases "py_startswith ind [sep]")
    case True
    then show ?thesis by (simp add: A_def)
  next
    case False
    from assms(1) obtain cs where "cwd = sep # cs"
      by (cases cwd) (auto simp: py_startswith_def)
    with False show ?thesis by (simp add: A_def os_path_join_def py_startswith_def)
  qed
  have B: "B = foldl os_path_join A ns"
  proof (cases "py_startswith ind [sep]")
    case True
    with w have "py_startswith T [sep]" by blast
    with True show ?thesis by (simp add: B_def A_def T_def)
  next
    case False
    with w have "\<not> py_startswith T [sep]"
      and "os_path_join cwd T = foldl os_path_join (os_path_join cwd ind) ns"
      by blast+
    with False show ?thesis by (simp add: B_def A_def)
  qed
  note wA = walk_path [OF assms(3) A_ne, of cwd, folded B]
  from wA have B_abs: "py_startswith B [sep]" using A_abs by blast
  from wA have B_ini: "initial_slashes B = initial_slashes A" by blast
  from wA have B_cs: "filter (\<lambda>x. x \<noteq> []) (split_sep B) = filter (\<lambda>x. x \<noteq> []) (split_sep A) @ ns"
    by blast
  have "filter (\<lambda>x. x \<noteq> []) (split_sep (os_path_normpath B)) =
          norm_comps (initial_slashes B) (split_sep B) []"
    by (rule comps_normpath [OF B_abs])
  also have "\<dots> = norm_comps (initial_slashes A) (filter (\<lambda>x. x \<noteq> []) (split_sep B)) []"
    by (simp only: norm_comps_filter B_ini)
  also have "\<dots> = norm_comps (initial_slashes A) (filter (\<lambda>x. x \<noteq> []) (split_sep A) @ ns) []"
    by (simp only: B_cs)
  also have "\<dots> = norm_comps (initial_slashes A) (split_sep A) [] @ ns"
    by (simp only: norm_comps_append norm_comps_filter norm_comps_entries [OF assms(3)])
  also have "\<dots> = filter (\<lambda>x. x \<noteq> []) (split_sep (os_path_normpath A)) @ ns"
    by (simp only: comps_normpath [OF A_abs])
  finally have pl: "filter (\<lambda>x. x \<noteq> []) (split_sep (os_path_abspath cwd T)) =
                      filter (\<lambda>x. x \<noteq> []) (split_sep (os_path_abspath cwd ind)) @ ns"
    by (simp only: os_path_abspath_def A_def B_def)
  from w have "T \<noteq> []" by blast
  then have "os_path_relpath cwd T ind = Inr (sep_join ns)"
    using assms(4)
    by (simp add: os_path_relpath_def Let_def pl longest_common_prefix_append)
  then show ?thesis by (simp only: T_def)
qed

subsection \<open>Found files keep their extension\<close>

lemma sep_join_snoc: "sep_join (ds @ [f]) = (if ds = [] then f else sep_join ds @ sep # f)"
  by (induction ds rule: sep_join.induct) simp_all

lemma py_endswith_append:
  assumes "py_endswith f suf"
  shows "py_endswith (x @ f) suf"
proof -
  from assms have len: "length suf \<le> length f" and d: "drop (length f - length suf) f = suf"
    by (simp_all add: py_endswith_def)
  from len have "length (x @ f) - length suf = length x + (length f - length suf)" by simp
  then have "drop (length (x @ f) - length suf) (x @ f) = drop (length f - length suf) f"
    by (simp only: drop_append) simp
  with d len show ?thesis by (simp add: py_endswith_def)
qed

text \<open>A file that the walk finds in the input directory or below it, in a tree of
  ordinary names, has the relative path made of those names, and this path ends in the
  supported extension as the name of the file does.\<close>

lemma relative_path_of_found_file:
  assumes "py_startswith cwd [sep]" and "ind \<noteq> []"
    and "\<forall>d \<in> set ds. entry_name d" and "entry_name f"
    and "py_endswith (py_lower f) (CHR ''.'' # supported_format)"
  shows "os_path_relpath cwd (os_path_join (foldl os_path_join ind ds) f) ind =
           Inr (sep_join (ds @ [f])) \<and>
         py_endswith (py_lower (sep_join (ds @ [f]))) (CHR ''.'' # supported_format)"
proof -
  have "\<forall>n \<in> set (ds @ [f]). entry_name n" using assms(3,4) by simp
  from relpath_walk [OF assms(1) assms(2) this]
  have "os_path_relpath cwd (os_path_join (foldl os_path_join ind ds) f) ind =
          Inr (sep_join (ds @ [f]))"
    by simp
  moreover have "py_endswith (py_lower (sep_join (ds @ [f]))) (CHR ''.'' # supported_format)"
  proof (cases "ds = []")
    case True
    with assms(5) show ?thesis by simp
  next
    case False
    then have "py_lower (sep_join (ds @ [f])) = py_lower (sep_join ds @ [sep]) @ py_lower f"
      by (simp add: sep_join_snoc py_lower_def)
    with py_endswith_append [OF assms(5)] show ?thesis by simp
  qed
  ultimately show ?thesis by simp
qed

subsection \<open>Running again\<close>

lemma crop_requests_file_loop:
  "crop_requests (file_loop e ind outd ws s tif_paths) =
     concat (map (\<lambda>p. crop_requests (process_file e ind outd ws s p)) tif_paths)"
  by (induction tif_paths) (simp_all add: crop_requests_append, simp add: crop_requests_def)

lemma crop_requests_run:
  assumes "os_path_exists e outd \<or> os_makedirs e outd = None"
  shows "crop_requests (fst (crop_tif_images_with_gdal e ind outd ws s)) =
           concat (map (\<lambda>p. crop_requests (process_file e ind outd ws s p)) (discover e ind))"
proof -
  have "crop_requests (fst (crop_tif_images_with_gdal e ind outd ws s)) =
          crop_requests (file_loop e ind outd ws s (discover e ind))"
    unfolding run_created [OF assms] fst_conv crop_requests_append
    by (simp add: crop_requests_def)
  then show ?thesis by (simp only: crop_requests_file_loop)
qed

text \<open>The set of crop requests does not depend on the order in which the walk lists
  the files.\<close>

lemma same_requests_in_any_order:
  assumes "os_path_exists e1 outd = os_path_exists e2 outd"
    and "os_makedirs e1 outd = os_makedirs e2 outd"
    and "set (discover e1 ind) = set (discover e2 ind)"
    and "os_getcwd e1 = os_getcwd e2"
    and "\<forall>p \<in> set (discover e1 ind). gdal_Open e1 p = gdal_Open e2 p"
    and "gdal_Translate e1 = gdal_Translate e2"
  shows "set (crop_requests (fst (crop_tif_images_with_gdal e1 ind outd ws s))) =
         set (crop_requests (fst (crop_tif_images_with_gdal e2 ind outd ws s))) \<and>
         snd (crop_tif_images_with_gdal e1 ind outd ws s) =
         snd (crop_tif_images_with_gdal e2 ind outd ws s)"
proof (cases "os_path_exists e1 outd \<or> os_makedirs e1 outd = None")
  case True
  with assms(1,2) have ok2: "os_path_exists e2 outd \<or> os_makedirs e2 outd = None" by simp
  have pf: "process_file e1 ind outd ws s p = process_file e2 ind outd ws s p"
    if "p \<in> set (discover e1 ind)" for p
    using process_file_cong [OF assms(4) assms(6)] assms(5) that by blast
  have "set (crop_requests (fst (crop_tif_images_with_gdal e1 ind outd ws s))) =
          (\<Union>p \<in> set (discover e1 ind). set (crop_requests (process_file e1 ind outd ws s p)))"
    by (simp add: crop_requests_run [OF True])
  also have "\<dots> =
          (\<Union>p \<in> set (discover e1 ind). set (crop_requests (process_file e2 ind outd ws s p)))"
    using pf by simp
  also have "\<dots> = set (crop_requests (fst (crop_tif_images_with_gdal e2 ind outd ws s)))"
    by (simp add: crop_requests_run [OF ok2] assms(3))
  finally show ?thesis
    by (simp add: run_created [OF True] run_created [OF ok2])
next
  case False
  then obtain msg where 1: "\<not> os_path_exists e1 outd" "os_makedirs e1 outd = Some msg"
    by auto
  with assms(1,2) have 2: "\<not> os_path_exists e2 outd" "os_makedirs e2 outd = Some msg"
    by simp_all
  show ?thesis
    by (simp add: run_not_created [OF 1] run_not_created [OF 2])
qed

subsection \<open>The last occurrence of a character, and the parts of a path\<close>

lemma rfind_absent: "c \<notin> set ys \<Longrightarrow> rfind ys c = - 1"
  by (induction ys) (auto simp: Let_def)

lemma rfind_append_absent: "c \<notin> set ys \<Longrightarrow> rfind (xs @ ys) c = rfind xs c"
  by (induction xs) (simp_all add: rfind_absent Let_def)

lemma rfind_last: "c \<notin> set ys \<Longrightarrow> rfind (xs @ c # ys) c = int (length xs)"
  by (induction xs) (simp_all add: rfind_absent Let_def)

lemma rfind_less: "rfind xs c < int (length xs)"
  by (induction xs) (simp_all add: Let_def)

lemma path_parts:
  obtains dir where "p = dir @ last_component p" and "CHR ''/'' \<notin> set (last_component p)"
    and "rfind p sep + 1 = int (length dir)"
proof -
  let ?P = "\<lambda>c. c \<noteq> CHR ''/''"
  define dir where "dir = rev (dropWhile ?P (rev p))"
  have p: "p = dir @ last_component p"
  proof -
    have "dir @ last_component p = rev (takeWhile ?P (rev p) @ dropWhile ?P (rev p))"
      by (simp only: dir_def last_component_def rev_append)
    also have "\<dots> = rev (rev p)" by (simp only: takeWhile_dropWhile_id)
    finally show ?thesis by simp
  qed
  have nm: "CHR ''/'' \<notin> set (last_component p)"
    unfolding last_component_def set_rev using set_takeWhileD by fastforce
  have "rfind p sep + 1 = int (length dir)"
  proof (cases "dropWhile ?P (rev p)")
    case Nil
    then have "dir = []" by (simp add: dir_def)
    with p nm show ?thesis by (simp add: rfind_absent sep_def)
  next
    case (Cons x xs)
    then have "\<not> ?P x" using hd_dropWhile [of ?P "rev p"] by (metis list.distinct(1) list.sel(1))
    with Cons have d: "dir = rev xs @ [CHR ''/'']" by (simp add: dir_def)
    with p have "p = rev xs @ CHR ''/'' # last_component p" by simp
    then have "rfind p sep = int (length (rev xs))"
      using rfind_last [OF nm, of "rev xs"] by (simp add: sep_def)
    with d show ?thesis by simp
  qed
  with p nm show ?thesis by (rule that)
qed

lemma leading_dots:
  obtains dots where "n = dots @ dropWhile (\<lambda>c. c = CHR ''.'') n"
    and "\<forall>c \<in> set dots. c = CHR ''.''"
proof
  show "n = takeWhile (\<lambda>c. c = CHR ''.'') n @ dropWhile (\<lambda>c. c = CHR ''.'') n" by simp
  show "\<forall>c \<in> set (takeWhile (\<lambda>c. c = CHR ''.'') n). c = CHR ''.''"
    using set_takeWhileD by fastforce
qed

lemma stem_head:
  "dropWhile (\<lambda>c. c = CHR ''.'') n = [] \<or> hd (dropWhile (\<lambda>c. c = CHR ''.'') n) \<noteq> CHR ''.''"
  using hd_dropWhile [of "\<lambda>c. c = CHR ''.''" n] by blast

subsection \<open>The extension that splitext cuts off\<close>

lemma splitext_value:
  assumes "rfind p sep + 1 = int (length dir)" and "p = dir @ mid @ CHR ''.'' # rest"
    and "CHR ''.'' \<notin> set rest"
  shows "os_path_splitext p =
           (if list_ex (\<lambda>c. c \<noteq> CHR ''.'') mid then (dir @ mid, CHR ''.'' # rest) else (p, []))"
proof -
  have di: "rfind p extsep = int (length dir + length mid)"
    using rfind_last [OF assms(3), of "dir @ mid"] assms(2) by (simp add: extsep_def)
  from assms(1) have si: "rfind p sep = int (length dir) - 1" by simp
  have lt: "rfind p sep < rfind p extsep" unfolding si di by simp
  have n1: "nat (rfind p extsep - (rfind p sep + 1)) = length mid" unfolding si di by simp
  have n2: "nat (rfind p sep + 1) = length dir" unfolding si by simp
  have n3: "nat (rfind p extsep) = length dir + length mid" unfolding di by simp
  have slice: "take (length mid) (drop (length dir) p) = mid" unfolding assms(2) by simp
  have tk: "take (length dir + length mid) p = dir @ mid" unfolding assms(2) by simp
  have dr: "drop (length dir + length mid) p = CHR ''.'' # rest" unfolding assms(2) by simp
  show ?thesis
    unfolding os_path_splitext_def Let_def n1 n2 n3 slice tk dr
    using lt by (simp add: extsep_def)
qed

lemma splitext_no_dot:
  assumes "rfind p sep + 1 = int (length dir)" and "p = dir @ n" and "CHR ''.'' \<notin> set n"
  shows "os_path_splitext p = (p, [])"
proof -
  have "rfind p extsep = rfind dir extsep"
    unfolding assms(2) using assms(3) by (simp add: rfind_append_absent extsep_def)
  also have "\<dots> < int (length dir)" by (rule rfind_less)
  finally have "\<not> rfind p sep < rfind p extsep" using assms(1) by simp
  then show ?thesis by (simp add: os_path_splitext_def Let_def)
qed

text \<open>\<open>os.path.splitext\<close> cuts a path into the base and the final extension of the
  specification.\<close>

lemma splitext_spec: "os_path_splitext p = (spec_base p, spec_final_extension p)"
proof -
  define n where "n = last_component p"
  define stem where "stem = dropWhile (\<lambda>c. c = CHR ''.'') n"
  obtain dir where p: "p = dir @ n"
    and si: "rfind p sep + 1 = int (length dir)"
    unfolding n_def by (rule path_parts)
  obtain dots where n: "n = dots @ stem" and dots: "\<forall>c \<in> set dots. c = CHR ''.''"
    unfolding stem_def by (rule leading_dots)
  have sfe: "spec_final_extension p =
               (if CHR ''.'' \<in> set stem
                then CHR ''.'' # rev (takeWhile (\<lambda>c. c \<noteq> CHR ''.'') (rev stem)) else [])"
    by (simp only: spec_final_extension_def Let_def n_def stem_def)
  show ?thesis
  proof (cases "CHR ''.'' \<in> set stem")
    case True
    from split_list_last [OF True] obtain s1 s2
      where st: "stem = s1 @ CHR ''.'' # s2" and s2: "CHR ''.'' \<notin> set s2"
      by blast
    from True have "stem \<noteq> []" by auto
    with stem_head [of n] have hd: "hd stem \<noteq> CHR ''.''"
      unfolding stem_def by blast
    obtain x xs where s1: "s1 = x # xs"
    proof (cases s1)
      case Nil
      with st hd show ?thesis by simp
    next
      case (Cons x xs)
      then show ?thesis by (rule that)
    qed
    with st hd have x: "x \<noteq> CHR ''.''" by simp
    have ex: "list_ex (\<lambda>c. c \<noteq> CHR ''.'') (dots @ s1)"
      unfolding s1 list_ex_iff using x by auto
    have pp: "p = dir @ (dots @ s1) @ CHR ''.'' # s2"
      unfolding p n st by simp
    have tw: "takeWhile (\<lambda>c. c \<noteq> CHR ''.'') (rev stem) = rev s2"
    proof -
      have "takeWhile (\<lambda>c. c \<noteq> CHR ''.'') (rev s2 @ CHR ''.'' # rev s1) = rev s2"
        using s2 by (subst takeWhile_append2) auto
      then show ?thesis unfolding st by simp
    qed
    have ext: "spec_final_extension p = CHR ''.'' # s2"
      unfolding sfe tw using True by simp
    have len: "length p - length (CHR ''.'' # s2) = length (dir @ dots @ s1)"
      by (subst pp) simp
    have "take (length (dir @ dots @ s1)) p = dir @ dots @ s1"
      by (subst pp) simp
    then have base: "spec_base p = dir @ dots @ s1"
      by (simp only: spec_base_def ext len)
    from splitext_value [OF si pp s2] ex have "os_path_splitext p = (dir @ dots @ s1, CHR ''.'' # s2)"
      by simp
    then show ?thesis by (simp only: base ext)
  next
    case False
    then have ext: "spec_final_extension p = []"
      unfolding sfe by simp
    then have base: "spec_base p = p" by (simp add: spec_base_def)
    have "os_path_splitext p = (p, [])"
    proof (cases dots rule: rev_cases)
      case Nil
      with n False have "CHR ''.'' \<notin> set n" by simp
      from splitext_no_dot [OF si p this] show ?thesis .
    next
      case (snoc ds d)
      with dots have d: "d = CHR ''.''" and ds: "\<forall>c \<in> set ds. c = CHR ''.''" by simp_all
      have pp: "p = dir @ ds @ CHR ''.'' # stem"
        unfolding p n snoc d by simp
      from ds have "\<not> list_ex (\<lambda>c. c \<noteq> CHR ''.'') ds" by (simp add: list_ex_iff)
      with splitext_value [OF si pp False] show ?thesis by simp
    qed
    then show ?thesis by (simp only: base ext)
  qed
qed

subsection \<open>The name of an output file\<close>

text \<open>
  C3. Take a file found under the input directory: the directory joined with the
  directory names \<open>dirs\<close> and the file name \<open>f\<close>. Its path relative to the input
  directory, which \<open>os.path.relpath\<close> computes, is those names joined by separators.
  \<open>os.path.splitext\<close> cuts it into the base and the final extension: the last dot
  of the file name with what follows it, dots at the start of the name apart, and the
  path before it. With
  \<open>flat_base\<close> the base with every separator turned into an underscore, the name of
  every crop request of the file is \<open>flat_base_left_top_right_bottom\<close> followed by the
  extension, with \<open>right = left + w\<close> and \<open>bottom = top + h\<close> in decimal. The name has
  no separator in it, so the output path is the output directory followed by the
  name: the file lies directly in the output directory.
\<close>

theorem output_name_rule:
  assumes "py_startswith (os_getcwd e) [sep]"
    and "ind \<noteq> []"
    and "\<forall>d \<in> set dirs. entry_name d"
    and "entry_name f"
    and "tif_path = os_path_join (foldl os_path_join ind dirs) f"
    and "(p, d, (left, top', ww, hh)) \<in>
           set (crop_requests (process_file e ind outd (w, h) s tif_path))"
  shows "let relative_path = sep_join (dirs @ [f]);
             ext = spec_final_extension relative_path;
             base = spec_base relative_path;
             flat_base = map (\<lambda>c. if c = CHR ''/'' then CHR ''_'' else c) base;
             name = flat_base @ ''_'' @ py_str left @ ''_'' @ py_str top' @ ''_'' @
                    py_str (left + w) @ ''_'' @ py_str (top' + h) @ ext
         in os_path_relpath (os_getcwd e) tif_path ind = Inr relative_path \<and>
            os_path_splitext relative_path = (base, ext) \<and>
            CHR ''/'' \<notin> set name \<and>
            p = (if outd = [] \<or> last outd = CHR ''/'' then outd @ name else outd @ ''/'' @ name)"
proof -
  have names: "\<forall>n \<in> set (dirs @ [f]). entry_name n" using assms(3,4) by simp
  have "os_path_relpath (os_getcwd e) (foldl os_path_join ind (dirs @ [f])) ind =
          Inr (sep_join (dirs @ [f]))"
    by (rule relpath_walk [OF assms(1) assms(2) names]) simp
  then have rel: "os_path_relpath (os_getcwd e) tif_path ind = Inr (sep_join (dirs @ [f]))"
    by (simp add: assms(5))
  have cut: "os_path_splitext (sep_join (dirs @ [f])) =
               (spec_base (sep_join (dirs @ [f])), spec_final_extension (sep_join (dirs @ [f])))"
    by (rule splitext_spec)
  from crop_request_name [OF rel cut assms(6)] rel cut show ?thesis
    by (simp add: Let_def)
qed

theorem output_name_rule_witness:
  "let relative_path = sep_join ([''a''] @ [''b.tif'']);
       ext = spec_final_extension relative_path;
       base = spec_base relative_path;
       flat_base = map (\<lambda>c. if c = CHR ''/'' then CHR ''_'' else c) base;
       name = flat_base @ ''_'' @ py_str 1000 @ ''_'' @ py_str 0 @ ''_'' @
              py_str (1000 + 1000) @ ''_'' @ py_str (0 + 1000) @ ext
   in (''out'' @ ''/'' @ name, b_tif, (1000, 0, 1000, 1000)) \<in>
        set (crop_requests (process_file example_env ''in'' ''out'' (1000, 1000) 1000
               ''in/a/b.tif'')) \<and>
      os_path_relpath (os_getcwd example_env) ''in/a/b.tif'' ''in'' = Inr ''a/b.tif'' \<and>
      os_path_splitext ''a/b.tif'' = (''a/b'', ''.tif'') \<and>
      name = ''a_b_1000_0_2000_1000.tif''"
proof -
  have 1: "py_startswith (os_getcwd example_env) [sep]"
    by code_simp
  have 2: "''in'' \<noteq> []"
    by simp
  have 3: "\<forall>d \<in> set [''a'']. entry_name d"
    by code_simp
  have 4: "entry_name ''b.tif''"
    by code_simp
  have 5: "''in/a/b.tif'' = os_path_join (foldl os_path_join ''in'' [''a'']) ''b.tif''"
    by code_simp
  have 6: "(''out/a_b_1000_0_2000_1000.tif'', b_tif, (1000, 0, 1000, 1000)) \<in>
             set (crop_requests (process_file example_env ''in'' ''out'' (1000, 1000)
                    1000 ''in/a/b.tif''))"
    by code_simp
  have 7: "sep_join ([''a''] @ [''b.tif'']) = ''a/b.tif''"
    by code_simp
  have 8: "spec_final_extension ''a/b.tif'' = ''.tif''"
    by code_simp
  have 9: "spec_base ''a/b.tif'' = ''a/b''"
    by code_simp
  have 10: "py_str 1000 = ''1000''" "py_str 0 = ''0''" "py_str 2000 = ''2000''"
    by code_simp+
  show ?thesis
    using output_name_rule [OF 1 2 3 4 5 6] 6
    by (simp add: Let_def sep_def 7 8 9 10)
qed

subsection \<open>Worlds that answer alike where the run looks\<close>









subsection \<open>The files that a run leaves\<close>

lemma written_append:
  "written e content (xs @ ys) files = written e content ys (written e content xs files)"
  by (induction e content xs files rule: written.induct) simp_all


lemma written_no_makedirs:
  "written e content (filter (\<lambda>ev. makedirs_of ev = []) evs) files = written e content evs files"
proof (induction evs arbitrary: files)
  case Nil
  show ?case by simp
next
  case (Cons ev evs)
  then show ?case by (cases ev) simp_all
qed



subsection \<open>Running again in the world that the first run left\<close>



end
